theory Spec2Isabelle
  imports Complex_Main "HOL-Library.Log_Nat"
begin

section \<open>Numbers\<close>

text \<open>
  The values of JavaScript's \<^verbatim>\<open>number\<close> type: IEEE 754 double precision. A finite
  double is given by the rational it denotes, the two infinities and NaN are kept (the
  resize handler divides by a window dimension that can be 0). The sign of a zero is not
  kept: the code below only compares numbers and takes absolute values, and no result
  of it depends on the sign of a zero.

  Every arithmetic operation of the language returns the exact result rounded to the
  nearest double, a tie going to the even significand; \<open>to_double\<close> is that rounding.
  For \<open>q\<close> other than 0, the rounding takes the exponent \<open>e\<close> with
  \<open>2^e \<le> |q| < 2^(e+1)\<close> (\<open>binade\<close>), not below \<open>-1022\<close>, where the subnormal
  range begins; the doubles of that binade are the multiples of \<open>2^(e-52)\<close>; and a
  result that reaches \<open>2^1024\<close> (above the top binade, or in it with a significand
  rounded up to \<open>2^53 = 9007199254740992\<close>) is an infinity.
\<close>

datatype number = Fin rat | PosInf | NegInf | NaN

definition binade :: "rat \<Rightarrow> int" where
  "binade q =
     (let (n, d) = quotient_of q;
          k = bitlen n - bitlen d
      in if 2 powi k \<le> q then k else k - 1)"

definition round_ties_to_even :: "rat \<Rightarrow> int" where
  "round_ties_to_even x =
     (let f = \<lfloor>x\<rfloor>;
          r = x - of_int f
      in if r < 1 / 2 then f
         else if 1 / 2 < r then f + 1
         else if even f then f else f + 1)"

definition to_double :: "rat \<Rightarrow> number" where
  "to_double q =
     (if q = 0 then Fin 0
      else
        (let e = max (binade \<bar>q\<bar>) (- 1022);
             ulp = 2 powi (e - 52);
             m = round_ties_to_even (\<bar>q\<bar> / ulp)
         in if 1024 \<le> e \<or> (e = 1023 \<and> 9007199254740992 \<le> m)
            then (if 0 < q then PosInf else NegInf)
            else Fin (sgn q * (of_int m * ulp))))"

fun js_abs :: "number \<Rightarrow> number" where
  "js_abs (Fin r) = Fin \<bar>r\<bar>"
| "js_abs PosInf = PosInf"
| "js_abs NegInf = PosInf"
| "js_abs NaN = NaN"

fun js_neg :: "number \<Rightarrow> number" where
  "js_neg (Fin r) = Fin (- r)"
| "js_neg PosInf = NegInf"
| "js_neg NegInf = PosInf"
| "js_neg NaN = NaN"

text \<open>Addition \<^verbatim>\<open>a + b\<close> and subtraction \<^verbatim>\<open>a - b\<close>, which is \<^verbatim>\<open>a + (-b)\<close>.\<close>

fun js_add :: "number \<Rightarrow> number \<Rightarrow> number" where
  "js_add (Fin a) (Fin b) = to_double (a + b)"
| "js_add NaN _ = NaN"
| "js_add _ NaN = NaN"
| "js_add PosInf NegInf = NaN"
| "js_add NegInf PosInf = NaN"
| "js_add PosInf _ = PosInf"
| "js_add NegInf _ = NegInf"
| "js_add _ PosInf = PosInf"
| "js_add _ NegInf = NegInf"

definition js_sub :: "number \<Rightarrow> number \<Rightarrow> number" where
  "js_sub a b = js_add a (js_neg b)"

text \<open>Strict equality \<^verbatim>\<open>===\<close> on numbers: NaN equals nothing.\<close>

fun js_seq :: "number \<Rightarrow> number \<Rightarrow> bool" where
  "js_seq NaN _ = False"
| "js_seq _ NaN = False"
| "js_seq a b = (a = b)"

text \<open>
  Division \<^verbatim>\<open>a / b\<close>, for a divisor that is never the negative zero (the handler
  divides by \<^verbatim>\<open>size.w / 100.0\<close> with a window dimension \<^verbatim>\<open>size.w\<close> that is 0 or
  positive): a finite value over 0 is an infinity of the dividend's sign, and 0 over 0
  is NaN.
\<close>

fun js_div :: "number \<Rightarrow> number \<Rightarrow> number" where
  "js_div (Fin a) (Fin b) =
     (if b = 0 then (if a = 0 then NaN else if 0 < a then PosInf else NegInf)
      else to_double (a / b))"
| "js_div NaN _ = NaN"
| "js_div _ NaN = NaN"
| "js_div (Fin a) _ = Fin 0"
| "js_div PosInf (Fin b) = (if 0 \<le> b then PosInf else NegInf)"
| "js_div NegInf (Fin b) = (if 0 \<le> b then NegInf else PosInf)"
| "js_div _ _ = NaN"

text \<open>
  \<^verbatim>\<open>Math.round\<close>: the nearest integer, a tie going up. The result is exact (below
  \<open>2^52\<close> every integer is a double, and from there on every double is an integer).
\<close>

fun js_round :: "number \<Rightarrow> number" where
  "js_round (Fin r) = Fin (of_int (round r))"
| "js_round n = n"

section \<open>The ratio closeness test\<close>

text \<open>
  \<^verbatim>\<open>
  const diffBiggerThanOne = (valOne: number, valTwo: number): boolean => {
    const absValOne = abs(valOne);
    const absValTwo = abs(valTwo);
    return !(absValOne === absValTwo || absValOne + 1 === absValTwo || absValOne - 1 === absValTwo);
  };
  \<close>
\<close>

definition diffBiggerThanOne :: "number \<Rightarrow> number \<Rightarrow> bool" where
  "diffBiggerThanOne valOne valTwo =
     (let absValOne = js_abs valOne;
          absValTwo = js_abs valTwo
      in \<not> (js_seq absValOne absValTwo
             \<or> js_seq (js_add absValOne (Fin 1)) absValTwo
             \<or> js_seq (js_sub absValOne (Fin 1)) absValTwo))"

text \<open>
  What "the absolute values are equal or differ by exactly 1" means on each kind of
  number: the statement of exact arithmetic on finite values, true on two infinities (of
  any sign), false as soon as one side is NaN or only one side is infinite.
\<close>

fun abs_equal_or_one_apart :: "number \<Rightarrow> number \<Rightarrow> bool" where
  "abs_equal_or_one_apart (Fin a) (Fin b) =
     (\<bar>a\<bar> = \<bar>b\<bar> \<or> \<bar>a\<bar> + 1 = \<bar>b\<bar> \<or> \<bar>a\<bar> - 1 = \<bar>b\<bar>)"
| "abs_equal_or_one_apart NaN _ = False"
| "abs_equal_or_one_apart _ NaN = False"
| "abs_equal_or_one_apart (Fin a) _ = False"
| "abs_equal_or_one_apart _ (Fin b) = False"
| "abs_equal_or_one_apart _ _ = True"

text \<open>
  The numbers on which the two sums \<^verbatim>\<open>absValOne + 1\<close> and \<^verbatim>\<open>absValOne - 1\<close> of the
  test are exact, that is, are doubles themselves: the infinities and NaN, and the finite
  values whose absolute value plus 1 and minus 1 need no rounding. \<open>safe_integer\<close> is
  \<^verbatim>\<open>Number.isSafeInteger\<close>: a whole number of magnitude below \<open>2^53\<close>.
\<close>

fun plus_minus_one_exact :: "number \<Rightarrow> bool" where
  "plus_minus_one_exact (Fin a) =
     (to_double (\<bar>a\<bar> + 1) = Fin (\<bar>a\<bar> + 1) \<and> to_double (\<bar>a\<bar> - 1) = Fin (\<bar>a\<bar> - 1))"
| "plus_minus_one_exact _ = True"

fun safe_integer :: "number \<Rightarrow> bool" where
  "safe_integer (Fin a) = (a = of_int \<lfloor>a\<rfloor> \<and> \<bar>a\<bar> < 9007199254740992)"
| "safe_integer _ = False"

section \<open>The document tree\<close>

text \<open>
  The part of the browser's DOM that \<^verbatim>\<open>core/dom/manipulation.ts\<close> works on. A node is
  an identifier; the document holds, for every node, its \<^verbatim>\<open>parentNode\<close>, its
  \<^verbatim>\<open>childNodes\<close> in order and its kind. Nodes are created in sequence:
  \<open>nextId\<close> counts the nodes created so far, so the nodes in existence are
  \<open>0, ..., nextId - 1\<close>.

  The kinds are those the utilities tell apart. The helper \<^verbatim>\<open>isArrayLike\<close> holds of
  every value with a numeric \<^verbatim>\<open>length\<close> property, and some nodes have one:
  \<^item> \<open>Element\<close>: an element without a \<^verbatim>\<open>length\<close> property (a \<^verbatim>\<open>div\<close>, an
    \<^verbatim>\<open>option\<close>);
  \<^item> \<open>SelectElement\<close>: an element with a \<^verbatim>\<open>length\<close> and indexed items, as a
    \<^verbatim>\<open>select\<close> element has: its \<^verbatim>\<open>length\<close> is the number of its options, here its
    \<open>Element\<close> children, and \<^verbatim>\<open>select[i]\<close> is the \<open>i\<close>-th of them;
  \<^item> \<open>CharacterData n\<close>: a text or comment node whose data has \<open>n\<close> characters; its
    \<^verbatim>\<open>length\<close> is \<open>n\<close> and it has no indexed items (\<^verbatim>\<open>text[i]\<close> is
    \<^verbatim>\<open>undefined\<close>);
  \<^item> \<open>DocumentFragment\<close>: a fragment, without a \<^verbatim>\<open>length\<close> property.
\<close>

type_synonym node = nat

datatype node_kind = Element | SelectElement | CharacterData nat | DocumentFragment

record dom =
  parentNode :: "node \<Rightarrow> node option"
  childNodes :: "node \<Rightarrow> node list"
  kind :: "node \<Rightarrow> node_kind"
  nextId :: nat

text \<open>
  The exceptions raised here: the two of the DOM standard's tree operations, and the
  \<^verbatim>\<open>TypeError\<close> of a DOM method called with a value that is not a node.
\<close>

datatype error = HierarchyRequestError | NotFoundError | TypeError

text \<open>
  The kinds of node without a numeric \<^verbatim>\<open>length\<close>, and the kinds of node that can
  have children (elements and fragments).
\<close>

fun no_length :: "node_kind \<Rightarrow> bool" where
  "no_length Element = True"
| "no_length DocumentFragment = True"
| "no_length _ = False"

fun can_have_children :: "node_kind \<Rightarrow> bool" where
  "can_have_children (CharacterData _) = False"
| "can_have_children _ = True"

text \<open>
  A tree as the browser keeps it: child lists without repetition, every child (an
  existing node) pointing back to its parent, every parent listing the node.
\<close>

definition wf_dom :: "dom \<Rightarrow> bool" where
  "wf_dom d =
     list_all (\<lambda>n.
         distinct (childNodes d n)
       \<and> list_all (\<lambda>c. c < nextId d \<and> parentNode d c = Some n) (childNodes d n)
       \<and> (case parentNode d n of
            None \<Rightarrow> True
          | Some q \<Rightarrow> q < nextId d \<and> n \<in> set (childNodes d q)))
       [0 ..< nextId d]"

text \<open>
  \<open>inclusive_ancestor d a n\<close>: \<open>a\<close> is \<open>n\<close> or one of its ancestors. The walk up the
  parent pointers takes at most as many steps as there are nodes.
\<close>

fun ancestor_walk :: "nat \<Rightarrow> dom \<Rightarrow> node \<Rightarrow> node \<Rightarrow> bool" where
  "ancestor_walk 0 d a n = (a = n)"
| "ancestor_walk (Suc k) d a n =
     (a = n \<or> (case parentNode d n of None \<Rightarrow> False | Some q \<Rightarrow> ancestor_walk k d a q))"

definition inclusive_ancestor :: "dom \<Rightarrow> node \<Rightarrow> node \<Rightarrow> bool" where
  "inclusive_ancestor d a n = ancestor_walk (nextId d) d a n"

definition firstChild :: "dom \<Rightarrow> node \<Rightarrow> node option" where
  "firstChild d n = (case childNodes d n of [] \<Rightarrow> None | c # _ \<Rightarrow> Some c)"

definition previousSibling :: "dom \<Rightarrow> node \<Rightarrow> node option" where
  "previousSibling d n =
     (case parentNode d n of
        None \<Rightarrow> None
      | Some q \<Rightarrow>
          (let earlier = takeWhile (\<lambda>m. m \<noteq> n) (childNodes d q)
           in if earlier = [] then None else Some (last earlier)))"

definition nextSibling :: "dom \<Rightarrow> node \<Rightarrow> node option" where
  "nextSibling d n =
     (case parentNode d n of
        None \<Rightarrow> None
      | Some q \<Rightarrow>
          (case dropWhile (\<lambda>m. m \<noteq> n) (childNodes d q) of
             _ # later # _ \<Rightarrow> Some later
           | _ \<Rightarrow> None))"

text \<open>\<^verbatim>\<open>document.createDocumentFragment()\<close>: a new, empty, parentless fragment.\<close>

definition createDocumentFragment :: "dom \<Rightarrow> node \<times> dom" where
  "createDocumentFragment d =
     (nextId d,
      d\<lparr>parentNode := (parentNode d)(nextId d := None),
        childNodes := (childNodes d)(nextId d := []),
        kind := (kind d)(nextId d := DocumentFragment),
        nextId := Suc (nextId d)\<rparr>)"

text \<open>The standard's "remove": the node leaves its parent, if it has one.\<close>

definition remove_node :: "dom \<Rightarrow> node \<Rightarrow> dom" where
  "remove_node d n =
     (case parentNode d n of
        None \<Rightarrow> d
      | Some q \<Rightarrow>
          d\<lparr>parentNode := (parentNode d)(n := None),
            childNodes := (childNodes d)(q := removeAll n (childNodes d q))\<rparr>)"

text \<open>\<^verbatim>\<open>parent.removeChild(child)\<close> raises when \<open>child\<close> is not a child of \<open>parent\<close>.\<close>

definition Node_removeChild :: "dom \<Rightarrow> node \<Rightarrow> node \<Rightarrow> error + dom" where
  "Node_removeChild d parent child =
     (if parentNode d child \<noteq> Some parent then Inl NotFoundError
      else Inr (remove_node d child))"

text \<open>The child list \<open>xs\<close> with \<open>ys\<close> put in before the reference child (at the end for null).\<close>

definition splice_before :: "node list \<Rightarrow> node option \<Rightarrow> node list \<Rightarrow> node list" where
  "splice_before xs ref ys =
     (case ref of
        None \<Rightarrow> xs @ ys
      | Some c \<Rightarrow> takeWhile (\<lambda>m. m \<noteq> c) xs @ ys @ dropWhile (\<lambda>m. m \<noteq> c) xs)"

text \<open>
  \<^verbatim>\<open>parent.insertBefore(node, child)\<close> as the DOM standard defines it, for a parent
  that can have children (an element or a fragment): it raises HierarchyRequestError
  when \<open>node\<close> is \<open>parent\<close> or contains it, NotFoundError when \<open>child\<close> is not null
  and not a child of \<open>parent\<close>; a reference child that is \<open>node\<close> itself is replaced by
  the node's next sibling; a fragment is emptied into the parent, any other node is first
  taken out of its old parent.
\<close>

definition Node_insertBefore :: "dom \<Rightarrow> node \<Rightarrow> node \<Rightarrow> node option \<Rightarrow> error + dom" where
  "Node_insertBefore d parent node child =
     (if inclusive_ancestor d node parent then Inl HierarchyRequestError
      else if (case child of None \<Rightarrow> False | Some c \<Rightarrow> parentNode d c \<noteq> Some parent)
        then Inl NotFoundError
      else
        (let referenceChild = (if child = Some node then nextSibling d node else child)
         in if kind d node = DocumentFragment then
              (let nodes = childNodes d node
               in Inr (d\<lparr>parentNode :=
                            (\<lambda>m. if m \<in> set nodes then Some parent else parentNode d m),
                          childNodes :=
                            (childNodes d)
                              (node := [],
                               parent := splice_before (childNodes d parent) referenceChild nodes)\<rparr>))
            else
              (let d1 = remove_node d node
               in Inr (d1\<lparr>parentNode := (parentNode d1)(node := Some parent),
                           childNodes :=
                             (childNodes d1)
                               (parent := splice_before (childNodes d1 parent) referenceChild [node])\<rparr>))))"

definition Node_appendChild :: "dom \<Rightarrow> node \<Rightarrow> node \<Rightarrow> error + dom" where
  "Node_appendChild d parent node = Node_insertBefore d parent node None"

section \<open>Node insertion and removal\<close>

text \<open>
  The argument type \<^verbatim>\<open>ArrayLike<Node> | Node | undefined | null\<close> of the utilities:
  \<^item> \<open>Nothing\<close> is \<^verbatim>\<open>null\<close> or \<^verbatim>\<open>undefined\<close> (falsy);
  \<^item> \<open>Single n\<close> is the node \<open>n\<close>;
  \<^item> \<open>NodeArray ns\<close> is an array of nodes: its elements stay what they are while
    nodes are moved;
  \<^item> \<open>NodeList q\<close> is the live list \<^verbatim>\<open>q.childNodes\<close> of the document's own: at
    every moment it holds the current children of \<open>q\<close>.

  \<open>items d v\<close> is what the value \<open>v\<close> holds under the indices \<open>0, ..., v.length - 1\<close>
  in the document \<open>d\<close>, with \<open>None\<close> for \<^verbatim>\<open>undefined\<close>; it is \<open>None\<close> when \<open>v\<close> has
  no numeric \<^verbatim>\<open>length\<close>. So
  \<^verbatim>\<open>
  function isArrayLike(obj) {
    const length = !!obj && obj.length;
    return isArray(obj) || !isFunction(obj) && isNumber(length) && length > -1 && length % 1 == 0;
  }
  \<close>
  holds exactly when there are such items, and \<^verbatim>\<open>Array.from(v)\<close> is the list of them
  at the time of the call.
\<close>

datatype NodeCollection = Nothing | Single node | NodeArray "node list" | NodeList node

fun items :: "dom \<Rightarrow> NodeCollection \<Rightarrow> node option list option" where
  "items d Nothing = None"
| "items d (NodeArray ns) = Some (map Some ns)"
| "items d (NodeList q) = Some (map Some (childNodes d q))"
| "items d (Single n) =
     (case kind d n of
        CharacterData len \<Rightarrow> Some (replicate len None)
      | SelectElement \<Rightarrow> Some (map Some (filter (\<lambda>c. kind d c = Element) (childNodes d n)))
      | _ \<Rightarrow> None)"

definition isArrayLike :: "dom \<Rightarrow> NodeCollection \<Rightarrow> bool" where
  "isArrayLike d obj = (items d obj \<noteq> None)"

text \<open>
  The loop of \<^verbatim>\<open>before\<close> over the inserted elements:
  \<^verbatim>\<open>
  each(insertedElms, (insertedElm) => {
      if (insertedElm === anchor) {
          anchor = insertedElm.previousSibling;
      }
      fragment!.appendChild(insertedElm);
  });
  \<close>
  where \<^verbatim>\<open>each\<close> walks an array-like source by index and reads its length anew at
  every turn (the callback returns nothing, so the loop never breaks):
  \<^verbatim>\<open>
  for (; i < source.length; i++) {
    if (callback(source[i], i, source) === false) break;
  }
  \<close>
  The state of the loop is the index, the variable \<^verbatim>\<open>anchor\<close> and the document;
  \<^verbatim>\<open>appendChild\<close> called with \<^verbatim>\<open>undefined\<close> raises a TypeError. The first argument
  bounds the number of turns: the source never grows while its nodes are moved away, so
  its length at the start is enough.
\<close>

fun each_insertedElm ::
  "nat \<Rightarrow> node \<Rightarrow> NodeCollection \<Rightarrow> nat \<Rightarrow> node option \<Rightarrow> dom
     \<Rightarrow> error + (node option \<times> dom)" where
  "each_insertedElm 0 fragment source i anchor d = Inr (anchor, d)"
| "each_insertedElm (Suc turns) fragment source i anchor d =
     (case items d source of
        None \<Rightarrow> Inr (anchor, d)
      | Some array \<Rightarrow>
          if i < length array then
            (case array ! i of
               None \<Rightarrow> Inl TypeError
             | Some insertedElm \<Rightarrow>
                 (let anchor' = (if Some insertedElm = anchor
                                 then previousSibling d insertedElm else anchor)
                  in case Node_appendChild d fragment insertedElm of
                       Inl e \<Rightarrow> Inl e
                     | Inr d' \<Rightarrow> each_insertedElm turns fragment source (Suc i) anchor' d'))
          else Inr (anchor, d))"

text \<open>
  \<^verbatim>\<open>
  if (preferredAnchor) {
      if (!anchor) {
          anchor = parent.firstChild;
      }
      else if (anchor !== preferredAnchor) {
          anchor = anchor.nextSibling;
      }
  }
  \<close>
\<close>

definition valid_anchor :: "dom \<Rightarrow> node \<Rightarrow> node option \<Rightarrow> node option \<Rightarrow> node option" where
  "valid_anchor d parent preferredAnchor anchor =
     (case preferredAnchor of
        None \<Rightarrow> anchor
      | Some c \<Rightarrow>
          (case anchor of
             None \<Rightarrow> firstChild d parent
           | Some a \<Rightarrow> if a \<noteq> c then nextSibling d a else anchor))"

text \<open>
  \<^verbatim>\<open>before(parent, preferredAnchor, insertedElms)\<close>. Nothing happens for a falsy
  collection or a null parent. The nodes of an array-like value are gathered in a new
  fragment; any other value is a node and is inserted as it is. The anchor is made valid
  and \<^verbatim>\<open>parent.insertBefore(fragment, anchor)\<close> does the insertion. An exception is
  the result \<open>Inl\<close>.
\<close>

definition before :: "dom \<Rightarrow> node option \<Rightarrow> node option \<Rightarrow> NodeCollection \<Rightarrow> error + dom" where
  "before d parent preferredAnchor insertedElms =
     (if insertedElms = Nothing then Inr d
      else
        (case parent of
           None \<Rightarrow> Inr d
         | Some parent' \<Rightarrow>
             (case items d insertedElms of
                Some array \<Rightarrow>
                  (let (fragment, d0) = createDocumentFragment d
                   in case each_insertedElm (length array) fragment insertedElms 0
                             preferredAnchor d0 of
                        Inl e \<Rightarrow> Inl e
                      | Inr (anchor, d1) \<Rightarrow>
                          Node_insertBefore d1 parent' fragment
                            (valid_anchor d1 parent' preferredAnchor anchor))
              | None \<Rightarrow>
                  (case insertedElms of
                     Single insertedElm \<Rightarrow>
                       Node_insertBefore d parent' insertedElm
                         (valid_anchor d parent' preferredAnchor preferredAnchor)
                   | _ \<Rightarrow> Inr d))))"

text \<open>
  Modelled from the spec: the helper \<^verbatim>\<open>parent\<close> of \<^verbatim>\<open>core/dom/traversal\<close> is not among
  the sources; the specification describes it as the node's current parent (null for
  null).
\<close>

definition parent :: "dom \<Rightarrow> node option \<Rightarrow> node option" where
  "parent d node = (case node of None \<Rightarrow> None | Some n \<Rightarrow> parentNode d n)"

definition appendChildren :: "dom \<Rightarrow> node option \<Rightarrow> NodeCollection \<Rightarrow> error + dom" where
  "appendChildren d node children = before d node None children"

definition prependChildren :: "dom \<Rightarrow> node option \<Rightarrow> NodeCollection \<Rightarrow> error + dom" where
  "prependChildren d node children =
     before d node (case node of None \<Rightarrow> None | Some n \<Rightarrow> firstChild d n) children"

definition insertBefore :: "dom \<Rightarrow> node option \<Rightarrow> NodeCollection \<Rightarrow> error + dom" where
  "insertBefore d node insertedNodes = before d (parent d node) node insertedNodes"

definition insertAfter :: "dom \<Rightarrow> node option \<Rightarrow> NodeCollection \<Rightarrow> error + dom" where
  "insertAfter d node insertedNodes =
     before d (parent d node) (case node of None \<Rightarrow> None | Some n \<Rightarrow> nextSibling d n)
       insertedNodes"

text \<open>
  \<^verbatim>\<open>
  export const removeElements = (nodes) => {
      if (isArrayLike(nodes)) {
          each(Array.from(nodes), (e) => removeElements(e));
      }
      else if (nodes) {
          const parentNode = nodes.parentNode;
          if (parentNode)
              parentNode.removeChild(nodes);
      }
  }
  \<close>
  \<open>removeElement\<close> is the second branch, for a node. \<open>each_call\<close> is \<^verbatim>\<open>each\<close> over
  an array that nothing changes, as \<^verbatim>\<open>Array.from\<close> returns one. An element of that
  array is a node or \<^verbatim>\<open>undefined\<close>, and the recursive call is made on it.

  The recursion is bounded by its depth: the elements of a collection are nodes, the
  indexed items of a node are elements without a \<^verbatim>\<open>length\<close>, and on those the second
  branch is taken. So no call is nested deeper than three levels, which is the depth
  \<open>removeElements\<close> starts with.
\<close>

definition removeElement :: "dom \<Rightarrow> node \<Rightarrow> error + dom" where
  "removeElement d nodes =
     (case parentNode d nodes of
        None \<Rightarrow> Inr d
      | Some parentNode' \<Rightarrow> Node_removeChild d parentNode' nodes)"

fun each_call :: "(dom \<Rightarrow> 'a \<Rightarrow> error + dom) \<Rightarrow> dom \<Rightarrow> 'a list \<Rightarrow> error + dom" where
  "each_call callback d [] = Inr d"
| "each_call callback d (e # rest) =
     (case callback d e of
        Inl err \<Rightarrow> Inl err
      | Inr d' \<Rightarrow> each_call callback d' rest)"

definition as_argument :: "node option \<Rightarrow> NodeCollection" where
  "as_argument e = (case e of None \<Rightarrow> Nothing | Some n \<Rightarrow> Single n)"

fun removeElements_nested :: "nat \<Rightarrow> dom \<Rightarrow> NodeCollection \<Rightarrow> error + dom" where
  "removeElements_nested 0 d nodes = Inr d"
| "removeElements_nested (Suc depth) d nodes =
     (case items d nodes of
        Some array \<Rightarrow>
          each_call (\<lambda>d' e. removeElements_nested depth d' (as_argument e)) d array
      | None \<Rightarrow>
          (case nodes of
             Single n \<Rightarrow> removeElement d n
           | _ \<Rightarrow> Inr d))"

definition removeElements :: "dom \<Rightarrow> NodeCollection \<Rightarrow> error + dom" where
  "removeElements d nodes = removeElements_nested 3 d nodes"

text \<open>
  The loop of \<open>before\<close> over an array, whose elements do not change: the callback is
  applied to each element in turn.
\<close>

fun append_all ::
  "node \<Rightarrow> node list \<Rightarrow> node option \<Rightarrow> dom \<Rightarrow> error + (node option \<times> dom)" where
  "append_all fragment [] anchor d = Inr (anchor, d)"
| "append_all fragment (insertedElm # rest) anchor d =
     (let anchor' = (if Some insertedElm = anchor then previousSibling d insertedElm
                     else anchor)
      in case Node_appendChild d fragment insertedElm of
           Inl e \<Rightarrow> Inl e
         | Inr d' \<Rightarrow> append_all fragment rest anchor' d')"

text \<open>
  The position the loop of \<open>before\<close> keeps for the insertion, used to state its
  invariant: the children of the parent are \<open>L @ R\<close>, the insertion point lies between
  \<open>L\<close> and \<open>R\<close>. While the preferred anchor \<open>c\<close> has not been moved, the variable
  \<^verbatim>\<open>anchor\<close> is \<open>c\<close> and \<open>c\<close> heads \<open>R\<close>; once it has been moved, the variable is the
  last node of \<open>L\<close> (null when \<open>L\<close> is empty).
\<close>

definition anchor_rel :: "node \<Rightarrow> node option \<Rightarrow> node list \<Rightarrow> node list \<Rightarrow> bool" where
  "anchor_rel c a L R =
     (if a = Some c then R \<noteq> [] \<and> hd R = c
      else c \<notin> set (L @ R) \<and> a = (if L = [] then None else Some (last L)))"

text \<open>
  A small document for the examples: the element 0 with the children 1 and 2, and the
  detached elements 3, 4 and 5.
\<close>

definition example_document :: dom where
  "example_document =
     \<lparr>parentNode = (\<lambda>_. None)(1 := Some 0, 2 := Some 0),
      childNodes = (\<lambda>_. [])(0 := [1, 2]),
      kind = (\<lambda>_. Element),
      nextId = 6\<rparr>"

text \<open>
  A document with nodes that have a \<^verbatim>\<open>length\<close>: the element 0 with two children, the
  text node 1 (two characters) and the element 2, and a detached \<^verbatim>\<open>select\<close> element 3
  with its two options 4 and 5.
\<close>

definition example_select_document :: dom where
  "example_select_document =
     \<lparr>parentNode = (\<lambda>_. None)(1 := Some 0, 2 := Some 0, 4 := Some 3, 5 := Some 3),
      childNodes = (\<lambda>_. [])(0 := [1, 2], 3 := [4, 5]),
      kind = (\<lambda>_. Element)(1 := CharacterData 2, 3 := SelectElement),
      nextId = 6\<rparr>"

text \<open>
  A document with a fragment: the element 0 without children, and the fragment 1 that
  holds the element 2.
\<close>

definition example_fragment_document :: dom where
  "example_fragment_document =
     \<lparr>parentNode = (\<lambda>_. None)(2 := Some 1),
      childNodes = (\<lambda>_. [])(1 := [2]),
      kind = (\<lambda>_. Element)(1 := DocumentFragment),
      nextId = 3\<rparr>"

section \<open>The environment\<close>

text \<open>
  \<^verbatim>\<open>XY\<close> and the window size \<^verbatim>\<open>{w, h}\<close>. Window dimensions and element sizes are
  whole numbers of CSS pixels.
\<close>

record 'a XY =
  xy_x :: 'a
  xy_y :: 'a

record WH =
  wh_w :: int
  wh_h :: int

text \<open>
  What the browser reports for an element: \<^verbatim>\<open>clientSize(elm)\<close> and
  \<^verbatim>\<open>offsetSize(elm)\<close>. The report depends on the element and on the state of the
  document (on where the element is in it); the layout of the browser is the function
  that gives it.
\<close>

record measurement =
  clientSize :: WH
  offsetSize :: WH

type_synonym layout = "dom \<Rightarrow> node \<Rightarrow> measurement"

text \<open>
  \<^verbatim>\<open>
  const nativeScrollbarSize = (body: HTMLElement, measureElm: HTMLElement): XY => {
    appendChildren(body, measureElm);
    const cSize = clientSize(measureElm);
    const oSize = offsetSize(measureElm);
    return { x: oSize.h - cSize.h, y: oSize.w - cSize.w };
  };
  \<close>
  The two sizes are read in the document as \<^verbatim>\<open>appendChildren\<close> leaves it.
\<close>

definition nativeScrollbarSize ::
  "dom \<Rightarrow> node \<Rightarrow> node \<Rightarrow> layout \<Rightarrow> error + (int XY \<times> dom)" where
  "nativeScrollbarSize d body measureElm lay =
     (case appendChildren d (Some body) (Single measureElm) of
        Inl e \<Rightarrow> Inl e
      | Inr d' \<Rightarrow>
          (let cSize = clientSize (lay d' measureElm);
               oSize = offsetSize (lay d' measureElm)
           in Inr (\<lparr>xy_x = wh_h oSize - wh_h cSize, xy_y = wh_w oSize - wh_w cSize\<rparr>, d')))"

text \<open>
  \<^verbatim>\<open>nativeScrollbarStyling\<close>: the two style reads, \<open>None\<close> when the read throws (the
  exception is swallowed and the result stays false).
\<close>

record styling_probe =
  scrollbarWidth :: "string option"
  webkitScrollbarDisplay :: "string option"

definition nativeScrollbarStyling :: "styling_probe \<Rightarrow> bool" where
  "nativeScrollbarStyling t =
     (case scrollbarWidth t of
        None \<Rightarrow> False
      | Some v \<Rightarrow>
          if v = ''none'' then True
          else (case webkitScrollbarDisplay t of None \<Rightarrow> False | Some u \<Rightarrow> u = ''none''))"

text \<open>
  \<^verbatim>\<open>rtlScrollBehavior\<close>: the three \<^verbatim>\<open>absoluteCoordinates(...).x\<close> it reads, and its
  result \<^verbatim>\<open>{ i: parentOffset.x === childOffset.x, n: childOffset.x !== childOffsetAfterScroll.x }\<close>.
\<close>

record rtl_probe =
  parentOffset_x :: rat
  childOffset_x :: rat
  childOffsetAfterScroll_x :: rat

record rtl_behavior =
  rtl_i :: bool
  rtl_n :: bool

definition rtlScrollBehavior :: "rtl_probe \<Rightarrow> rtl_behavior" where
  "rtlScrollBehavior r =
     \<lparr>rtl_i = (parentOffset_x r = childOffset_x r),
      rtl_n = (childOffset_x r \<noteq> childOffsetAfterScroll_x r)\<rparr>"

text \<open>
  \<^verbatim>\<open>
  const windowDPR = (): number => {
    const dDPI = window.screen.deviceXDPI || 0;
    const sDPI = window.screen.logicalXDPI || 1;
    return window.devicePixelRatio || dDPI / sDPI;
  };
  \<close>
  A property is \<open>None\<close> when the browser does not define it; \<^verbatim>\<open>a || b\<close> on a number is
  \<open>b\<close> when \<open>a\<close> is undefined or 0.
\<close>

record window_screen =
  devicePixelRatio :: "rat option"
  deviceXDPI :: "rat option"
  logicalXDPI :: "rat option"

definition or_else :: "rat option \<Rightarrow> rat \<Rightarrow> rat" where
  "or_else a b = (case a of None \<Rightarrow> b | Some r \<Rightarrow> if r = 0 then b else r)"

definition windowDPR :: "window_screen \<Rightarrow> rat" where
  "windowDPR s =
     (let dDPI = or_else (deviceXDPI s) 0;
          sDPI = or_else (logicalXDPI s) 1
      in or_else (devicePixelRatio s) (dDPI / sDPI))"

text \<open>
  The instance. A listener is the identity of a callback; the private set
  \<^verbatim>\<open>#onChangedListener\<close> is the list of its entries in insertion order, without
  repetition. An entry is \<open>None\<close> when a falsy value was added (the declared type
  excludes it, the guard \<^verbatim>\<open>listener && listener(_self)\<close> of the handler allows for it).
\<close>

type_synonym listener = nat

record Environment =
  env_onChangedListener :: "listener option list"
  env_autoUpdateLoop :: bool
  env_nativeScrollbarSize :: "int XY"
  env_nativeScrollbarIsOverlaid :: "bool XY"
  env_nativeScrollbarStyling :: bool
  env_rtlScrollBehavior :: rtl_behavior
  env_supportPassiveEvents :: bool
  env_supportResizeObserver :: bool

definition addListener :: "listener option \<Rightarrow> Environment \<Rightarrow> Environment" where
  "addListener l e =
     e\<lparr>env_onChangedListener :=
         (if l \<in> set (env_onChangedListener e) then env_onChangedListener e
          else env_onChangedListener e @ [l])\<rparr>"

definition removeListener :: "listener option \<Rightarrow> Environment \<Rightarrow> Environment" where
  "removeListener l e =
     e\<lparr>env_onChangedListener := removeAll l (env_onChangedListener e)\<rparr>"

text \<open>
  The variables the resize handler closes over (\<^verbatim>\<open>body\<close>, \<^verbatim>\<open>envElm\<close> and the
  mutable \<^verbatim>\<open>size\<close> and \<^verbatim>\<open>dpr\<close>), what the code does that can be observed from
  outside (a measurement taken, a listener called with the instance as it was at
  the call), and the page: the instance, the handler registered on the window (\<open>None\<close>
  when \<^verbatim>\<open>addEventListener\<close> was never called), the document and the effects so far.
  A callback is taken to return without changing the instance, the listener set or the
  document.
\<close>

record resize_closure =
  cl_body :: node
  cl_envElm :: node
  cl_size :: WH
  cl_dpr :: rat

datatype effect = Measured "int XY" | Called listener Environment

record page =
  self :: Environment
  resizeHandler :: "resize_closure option"
  document :: dom
  effects :: "effect list"

text \<open>What the browser reports at construction and at a resize event.\<close>

record platform =
  pf_layout :: layout
  pf_styling :: styling_probe
  pf_rtl :: rtl_probe
  pf_passiveOptionRead :: bool
  pf_ResizeObserver :: bool
  pf_windowSize :: WH
  pf_screen :: window_screen

record resize_event =
  ev_windowSize :: WH
  ev_screen :: window_screen
  ev_layout :: layout

text \<open>
  \<^verbatim>\<open>createDOM('<div id="os-envornment"><div></div></div>')\<close>: a wrapper element is
  created, the markup becomes its content, and the top-level nodes are taken out of it.
  What remains is the detached element \<^verbatim>\<open>envElm\<close> with its one child.
\<close>

definition createDOM_environment :: "dom \<Rightarrow> (node \<times> node) \<times> dom" where
  "createDOM_environment d =
     (let wrapper = nextId d;
          envElm = Suc wrapper;
          envChildElm = Suc envElm
      in ((envElm, envChildElm),
          d\<lparr>parentNode :=
              (parentNode d)(wrapper := None, envElm := None, envChildElm := Some envElm),
            childNodes :=
              (childNodes d)(wrapper := [], envElm := [envChildElm], envChildElm := []),
            kind :=
              (kind d)(wrapper := Element, envElm := Element, envChildElm := Element),
            nextId := Suc envChildElm\<rparr>))"

text \<open>
  The zoom test of the handler, from the recorded \<^verbatim>\<open>size\<close> and \<^verbatim>\<open>dpr\<close> and the new
  readings:
  \<^verbatim>\<open>
  const deltaSize = { w: sizeNew.w - size.w, h: sizeNew.h - size.h };
  const deltaAbsSize = { w: abs(deltaSize.w), h: abs(deltaSize.h) };
  const deltaAbsRatio = {
    w: abs(round(sizeNew.w / (size.w / 100.0))),
    h: abs(round(sizeNew.h / (size.h / 100.0))),
  };
  const deltaIsBigger = deltaAbsSize.w > 2 && deltaAbsSize.h > 2;
  const difference = !diffBiggerThanOne(deltaAbsRatio.w, deltaAbsRatio.h);
  const dprChanged = dprNew !== dpr && dpr > 0;
  const isZoom = deltaIsBigger && difference && dprChanged;
  \<close>
  The window dimensions are whole numbers far below \<open>2^53\<close>, on which the
  subtractions and comparisons are exact; the two quotients are rounded as every
  quotient of doubles is.
\<close>

definition deltaAbsRatio :: "int \<Rightarrow> int \<Rightarrow> number" where
  "deltaAbsRatio new old =
     js_abs (js_round (js_div (Fin (of_int new)) (js_div (Fin (of_int old)) (Fin 100))))"

definition isZoom :: "WH \<Rightarrow> rat \<Rightarrow> WH \<Rightarrow> rat \<Rightarrow> bool" where
  "isZoom size' dpr sizeNew dprNew =
     (let deltaSize = \<lparr>wh_w = wh_w sizeNew - wh_w size', wh_h = wh_h sizeNew - wh_h size'\<rparr>;
          deltaAbsSize = \<lparr>wh_w = \<bar>wh_w deltaSize\<bar>, wh_h = \<bar>wh_h deltaSize\<bar>\<rparr>;
          deltaAbsRatio_w = deltaAbsRatio (wh_w sizeNew) (wh_w size');
          deltaAbsRatio_h = deltaAbsRatio (wh_h sizeNew) (wh_h size');
          deltaIsBigger = (2 < wh_w deltaAbsSize \<and> 2 < wh_h deltaAbsSize);
          difference = (\<not> diffBiggerThanOne deltaAbsRatio_w deltaAbsRatio_h);
          dprChanged = (dprNew \<noteq> dpr \<and> 0 < dpr)
      in deltaIsBigger \<and> difference \<and> dprChanged)"

text \<open>
  \<^verbatim>\<open>onChangedListener.forEach((listener) => listener && listener(_self))\<close>: the calls
  made, in insertion order, each with the instance.
\<close>

fun forEach_listener :: "listener option list \<Rightarrow> Environment \<Rightarrow> effect list" where
  "forEach_listener [] e = []"
| "forEach_listener (None # rest) e = forEach_listener rest e"
| "forEach_listener (Some l # rest) e = Called l e # forEach_listener rest e"

text \<open>
  The resize handler (lines 152 to 191 of the class). Nothing runs when it was never
  registered. An exception of the DOM inside the handler is the result \<open>Inl\<close>.
\<close>

definition onResize :: "resize_event \<Rightarrow> page \<Rightarrow> error + page" where
  "onResize ev pg =
     (case resizeHandler pg of
        None \<Rightarrow> Inr pg
      | Some c \<Rightarrow>
          if length (env_onChangedListener (self pg)) \<noteq> 0 then
            (let sizeNew = ev_windowSize ev;
                 deltaSize = \<lparr>wh_w = wh_w sizeNew - wh_w (cl_size c),
                              wh_h = wh_h sizeNew - wh_h (cl_size c)\<rparr>
             in if wh_w deltaSize = 0 \<and> wh_h deltaSize = 0 then Inr pg
                else
                  (let dprNew = windowDPR (ev_screen ev);
                       oldScrollbarSize = env_nativeScrollbarSize (self pg);
                       c' = c\<lparr>cl_size := sizeNew, cl_dpr := dprNew\<rparr>
                   in if isZoom (cl_size c) (cl_dpr c) sizeNew dprNew then
                        (case nativeScrollbarSize (document pg) (cl_body c) (cl_envElm c)
                                (ev_layout ev) of
                           Inl e \<Rightarrow> Inl e
                         | Inr (newScrollbarSize, d1) \<Rightarrow>
                             (case removeElements d1 (Single (cl_envElm c)) of
                                Inl e \<Rightarrow> Inl e
                              | Inr d2 \<Rightarrow>
                                  (let self' = (self pg)\<lparr>env_nativeScrollbarSize :=
                                                            newScrollbarSize\<rparr>;
                                       calls =
                                         (if xy_x oldScrollbarSize \<noteq> xy_x newScrollbarSize
                                             \<or> xy_y oldScrollbarSize \<noteq> xy_y newScrollbarSize
                                          then forEach_listener (env_onChangedListener self') self'
                                          else [])
                                   in Inr (pg\<lparr>self := self',
                                              resizeHandler := Some c',
                                              document := d2,
                                              effects := effects pg
                                                 @ [Measured newScrollbarSize] @ calls\<rparr>))))
                      else Inr (pg\<lparr>resizeHandler := Some c'\<rparr>)))
          else Inr pg)"

text \<open>
  The constructor, on the document \<open>d\<close> with its \<^verbatim>\<open>body\<close>: the facts are measured,
  the measurement element is removed again, and the resize handler is registered unless
  the native scrollbars are overlaid on both axes.
\<close>

definition Environment_constructor :: "platform \<Rightarrow> node \<Rightarrow> dom \<Rightarrow> error + page" where
  "Environment_constructor pf body d =
     (let ((envElm, envChildElm), d0) = createDOM_environment d
      in case nativeScrollbarSize d0 body envElm (pf_layout pf) of
           Inl e \<Rightarrow> Inl e
         | Inr (nScrollBarSize, d1) \<Rightarrow>
             (let nativeScrollbarIsOverlaid =
                    \<lparr>xy_x = (xy_x nScrollBarSize = 0), xy_y = (xy_y nScrollBarSize = 0)\<rparr>;
                  self0 =
                    \<lparr>env_onChangedListener = [],
                     env_autoUpdateLoop = False,
                     env_nativeScrollbarSize = nScrollBarSize,
                     env_nativeScrollbarIsOverlaid = nativeScrollbarIsOverlaid,
                     env_nativeScrollbarStyling = nativeScrollbarStyling (pf_styling pf),
                     env_rtlScrollBehavior = rtlScrollBehavior (pf_rtl pf),
                     env_supportPassiveEvents = pf_passiveOptionRead pf,
                     env_supportResizeObserver = pf_ResizeObserver pf\<rparr>
              in case removeElements d1 (Single envElm) of
                   Inl e \<Rightarrow> Inl e
                 | Inr d2 \<Rightarrow>
                     Inr \<lparr>self = self0,
                          resizeHandler =
                            (if \<not> xy_x nativeScrollbarIsOverlaid \<or> \<not> xy_y nativeScrollbarIsOverlaid
                             then Some \<lparr>cl_body = body, cl_envElm = envElm,
                                        cl_size = pf_windowSize pf,
                                        cl_dpr = windowDPR (pf_screen pf)\<rparr>
                             else None),
                          document = d2,
                          effects = [Measured nScrollBarSize]\<rparr>))"

text \<open>What can happen to a page after construction, and a run of such actions.\<close>

datatype action =
  Resize resize_event
| AddListener "listener option"
| RemoveListener "listener option"

fun step :: "action \<Rightarrow> page \<Rightarrow> error + page" where
  "step (Resize ev) pg = onResize ev pg"
| "step (AddListener l) pg = Inr (pg\<lparr>self := addListener l (self pg)\<rparr>)"
| "step (RemoveListener l) pg = Inr (pg\<lparr>self := removeListener l (self pg)\<rparr>)"

fun run :: "action list \<Rightarrow> page \<Rightarrow> error + page" where
  "run [] pg = Inr pg"
| "run (a # as) pg = (case step a pg of Inl e \<Rightarrow> Inl e | Inr pg' \<Rightarrow> run as pg')"

definition construct_and_run :: "platform \<Rightarrow> node \<Rightarrow> dom \<Rightarrow> action list \<Rightarrow> error + page" where
  "construct_and_run pf body d as =
     (case Environment_constructor pf body d of Inl e \<Rightarrow> Inl e | Inr pg \<Rightarrow> run as pg)"

section \<open>Notions used to state the properties of the environment\<close>

text \<open>The scrollbar size a measurement amounts to (the value \<open>nativeScrollbarSize\<close> returns).\<close>

definition measured_size :: "measurement \<Rightarrow> int XY" where
  "measured_size m =
     \<lparr>xy_x = wh_h (offsetSize m) - wh_h (clientSize m),
      xy_y = wh_w (offsetSize m) - wh_w (clientSize m)\<rparr>"

text \<open>The callbacks among the entries of the listener set, in insertion order.\<close>

fun callbacks :: "listener option list \<Rightarrow> listener list" where
  "callbacks [] = []"
| "callbacks (None # rest) = callbacks rest"
| "callbacks (Some l # rest) = l # callbacks rest"

text \<open>
  The state of the document in which the handler can take its measurement: the tree is
  well formed, \<^verbatim>\<open>body\<close> exists, and the measurement element is a detached element that
  does not contain \<^verbatim>\<open>body\<close>. The constructor leaves the document in this state.
\<close>

definition probe_ready :: "dom \<Rightarrow> resize_closure \<Rightarrow> bool" where
  "probe_ready d c =
     (wf_dom d \<and> cl_body c < nextId d
      \<and> parentNode d (cl_envElm c) = None
      \<and> kind d (cl_envElm c) = Element
      \<and> \<not> inclusive_ancestor d (cl_envElm c) (cl_body c))"

text \<open>
  The document while the handler takes its measurement: the measurement element is the
  last child of \<^verbatim>\<open>body\<close>.
\<close>

definition measuring_document :: "dom \<Rightarrow> resize_closure \<Rightarrow> dom" where
  "measuring_document d c =
     d\<lparr>parentNode := (parentNode d)(cl_envElm c := Some (cl_body c)),
       childNodes := (childNodes d)(cl_body c := childNodes d (cl_body c) @ [cl_envElm c])\<rparr>"

text \<open>
  The scrollbar size a measurement in the document \<open>d\<close> amounts to under a layout: the
  one read from the sizes of the measurement element as the last child of \<^verbatim>\<open>body\<close>.
\<close>

definition probed_size :: "layout \<Rightarrow> dom \<Rightarrow> resize_closure \<Rightarrow> int XY" where
  "probed_size lay d c = measured_size (lay (measuring_document d c) (cl_envElm c))"

text \<open>
  The zoom test as the specification words it, to be compared with \<open>isZoom\<close>: both
  pixel deltas exceed 2, the two percentage ratios are "close", where close is worded
  as "their absolute values do not differ by exactly 0 or exactly 1", and the device
  pixel ratio differs from a positive recorded one.
\<close>

definition zoom_as_worded :: "WH \<Rightarrow> rat \<Rightarrow> WH \<Rightarrow> rat \<Rightarrow> bool" where
  "zoom_as_worded size' dpr sizeNew dprNew =
     (2 < \<bar>wh_w sizeNew - wh_w size'\<bar> \<and> 2 < \<bar>wh_h sizeNew - wh_h size'\<bar>
      \<and> \<not> abs_equal_or_one_apart (deltaAbsRatio (wh_w sizeNew) (wh_w size'))
                                  (deltaAbsRatio (wh_h sizeNew) (wh_h size'))
      \<and> dprNew \<noteq> dpr \<and> 0 < dpr)"

text \<open>
  The window dimensions the browser reports: whole numbers of CSS pixels from 0 up to,
  and not including, \<open>2^31\<close> (they are values of the type \<^verbatim>\<open>long\<close>).
\<close>

definition window_dimension :: "int \<Rightarrow> bool" where
  "window_dimension n = (0 \<le> n \<and> n < 2147483648)"

text \<open>
  Examples. A layout in which an element that is in a tree has the given sizes and an
  element outside of every tree has no box (all its sizes are 0). A desktop platform
  with classic scrollbars 17 pixels thick and a window of 1000 by 800 at device pixel
  ratio 1; a page whose instance has one listener and whose handler is registered, with
  the detached element 3 of the example document as measurement element; and three
  resize events: a zoom to 500 by 400 at ratio 2 after which the horizontal scrollbar
  measures 0 and the vertical one 15, the same window size at ratio 2, and a resize to
  900 by 800 at an unchanged ratio.
\<close>

definition boxes :: "measurement \<Rightarrow> layout" where
  "boxes m d n =
     (if parentNode d n = None
      then \<lparr>clientSize = \<lparr>wh_w = 0, wh_h = 0\<rparr>, offsetSize = \<lparr>wh_w = 0, wh_h = 0\<rparr>\<rparr>
      else m)"

definition example_platform :: platform where
  "example_platform =
     \<lparr>pf_layout = boxes \<lparr>clientSize = \<lparr>wh_w = 83, wh_h = 83\<rparr>,
                          offsetSize = \<lparr>wh_w = 100, wh_h = 100\<rparr>\<rparr>,
      pf_styling = \<lparr>scrollbarWidth = Some ''auto'', webkitScrollbarDisplay = Some ''block''\<rparr>,
      pf_rtl = \<lparr>parentOffset_x = 0, childOffset_x = 0, childOffsetAfterScroll_x = 0\<rparr>,
      pf_passiveOptionRead = True,
      pf_ResizeObserver = True,
      pf_windowSize = \<lparr>wh_w = 1000, wh_h = 800\<rparr>,
      pf_screen = \<lparr>devicePixelRatio = Some 1, deviceXDPI = None, logicalXDPI = None\<rparr>\<rparr>"

text \<open>The example platform with overlay scrollbars: the measurement element is as large inside as outside.\<close>

definition overlay_platform :: platform where
  "overlay_platform =
     example_platform\<lparr>pf_layout :=
        boxes \<lparr>clientSize = \<lparr>wh_w = 100, wh_h = 100\<rparr>,
               offsetSize = \<lparr>wh_w = 100, wh_h = 100\<rparr>\<rparr>\<rparr>"

definition example_page :: page where
  "example_page =
     \<lparr>self =
        \<lparr>env_onChangedListener = [Some 1],
         env_autoUpdateLoop = False,
         env_nativeScrollbarSize = \<lparr>xy_x = 17, xy_y = 17\<rparr>,
         env_nativeScrollbarIsOverlaid = \<lparr>xy_x = False, xy_y = False\<rparr>,
         env_nativeScrollbarStyling = False,
         env_rtlScrollBehavior = \<lparr>rtl_i = True, rtl_n = False\<rparr>,
         env_supportPassiveEvents = True,
         env_supportResizeObserver = True\<rparr>,
      resizeHandler =
        Some \<lparr>cl_body = 0, cl_envElm = 3, cl_size = \<lparr>wh_w = 1000, wh_h = 800\<rparr>, cl_dpr = 1\<rparr>,
      document = example_document,
      effects = []\<rparr>"

definition example_zoom :: resize_event where
  "example_zoom =
     \<lparr>ev_windowSize = \<lparr>wh_w = 500, wh_h = 400\<rparr>,
      ev_screen = \<lparr>devicePixelRatio = Some 2, deviceXDPI = None, logicalXDPI = None\<rparr>,
      ev_layout = boxes \<lparr>clientSize = \<lparr>wh_w = 85, wh_h = 100\<rparr>,
                          offsetSize = \<lparr>wh_w = 100, wh_h = 100\<rparr>\<rparr>\<rparr>"

definition example_same_size :: resize_event where
  "example_same_size =
     \<lparr>ev_windowSize = \<lparr>wh_w = 1000, wh_h = 800\<rparr>,
      ev_screen = \<lparr>devicePixelRatio = Some 2, deviceXDPI = None, logicalXDPI = None\<rparr>,
      ev_layout = boxes \<lparr>clientSize = \<lparr>wh_w = 85, wh_h = 85\<rparr>,
                          offsetSize = \<lparr>wh_w = 100, wh_h = 100\<rparr>\<rparr>\<rparr>"

definition example_resize :: resize_event where
  "example_resize =
     \<lparr>ev_windowSize = \<lparr>wh_w = 900, wh_h = 800\<rparr>,
      ev_screen = \<lparr>devicePixelRatio = Some 1, deviceXDPI = None, logicalXDPI = None\<rparr>,
      ev_layout = boxes \<lparr>clientSize = \<lparr>wh_w = 83, wh_h = 83\<rparr>,
                          offsetSize = \<lparr>wh_w = 100, wh_h = 100\<rparr>\<rparr>\<rparr>"
section \<open>Properties of the rounding to doubles\<close>

lemma binade_bounds:
  assumes q: "0 < q"
  shows "2 powi (binade q) \<le> q \<and> q < 2 powi (binade q + 1)"
proof -
  obtain n d where nd: "quotient_of q = (n, d)" by (cases "quotient_of q")
  have d: "0 < d" using quotient_of_denom_pos [OF nd] .
  have qe: "q = of_int n / of_int d" using quotient_of_div [OF nd] .
  have n: "0 < n" using q d qe by (simp add: zero_less_divide_iff)
  define bn where "bn = bitlen n"
  define bd where "bd = bitlen d"
  have bn1: "1 \<le> bn" using n bitlen_eq_zero_iff [of n] bitlen_nonneg [of n] by (simp add: bn_def)
  have bd1: "1 \<le> bd" using d bitlen_eq_zero_iff [of d] bitlen_nonneg [of d] by (simp add: bd_def)
  have nb: "(2::int) ^ nat (bn - 1) \<le> n" "n < 2 ^ nat bn"
    using bitlen_bounds [OF n] by (simp_all add: bn_def)
  have db: "(2::int) ^ nat (bd - 1) \<le> d" "d < 2 ^ nat bd"
    using bitlen_bounds [OF d] by (simp_all add: bd_def)
  have nr: "(2::rat) powi (bn - 1) \<le> of_int n" "(of_int n :: rat) < 2 powi bn"
  proof -
    have "(of_int ((2::int) ^ nat (bn - 1)) :: rat) \<le> of_int n" using nb(1) by (simp only: of_int_le_iff)
    then show "(2::rat) powi (bn - 1) \<le> of_int n" using bn1 by (simp add: power_int_nonneg_exp)
    have "(of_int n :: rat) < of_int ((2::int) ^ nat bn)" using nb(2) by (simp only: of_int_less_iff)
    then show "(of_int n :: rat) < 2 powi bn" using bn1 by (simp add: power_int_nonneg_exp)
  qed
  have dr: "(2::rat) powi (bd - 1) \<le> of_int d" "(of_int d :: rat) < 2 powi bd"
  proof -
    have "(of_int ((2::int) ^ nat (bd - 1)) :: rat) \<le> of_int d" using db(1) by (simp only: of_int_le_iff)
    then show "(2::rat) powi (bd - 1) \<le> of_int d" using bd1 by (simp add: power_int_nonneg_exp)
    have "(of_int d :: rat) < of_int ((2::int) ^ nat bd)" using db(2) by (simp only: of_int_less_iff)
    then show "(of_int d :: rat) < 2 powi bd" using bd1 by (simp add: power_int_nonneg_exp)
  qed
  have dpos: "(0::rat) < of_int d" using d by simp
  have upper: "q < 2 powi (bn - bd + 1)"
  proof -
    have "q * of_int d = of_int n" using qe dpos by simp
    also have "\<dots> < 2 powi bn" by (rule nr(2))
    also have "\<dots> = 2 powi (bn - bd + 1) * 2 powi (bd - 1)"
      by (simp add: power_int_add [symmetric])
    also have "\<dots> \<le> 2 powi (bn - bd + 1) * of_int d"
      using dr(1) by (simp add: mult_left_mono)
    finally show ?thesis using dpos by simp
  qed
  have lower: "2 powi (bn - bd - 1) < q"
  proof -
    have "(2::rat) powi (bn - bd - 1) * of_int d < 2 powi (bn - bd - 1) * 2 powi bd"
      using dr(2) by (intro mult_strict_left_mono) simp_all
    also have "\<dots> = 2 powi (bn - 1)" by (simp add: power_int_add [symmetric])
    also have "\<dots> \<le> of_int n" by (rule nr(1))
    also have "\<dots> = q * of_int d" using qe dpos by simp
    finally show ?thesis using dpos by simp
  qed
  have b: "binade q = (if 2 powi (bn - bd) \<le> q then bn - bd else bn - bd - 1)"
    by (simp add: binade_def nd bn_def bd_def Let_def)
  show ?thesis
  proof (cases "2 powi (bn - bd) \<le> q")
    case True
    then show ?thesis using b upper by simp
  next
    case False
    then have "binade q = bn - bd - 1" using b by simp
    then show ?thesis using False lower by simp
  qed
qed

lemma two_powi_less_D:
  assumes "(2::rat) powi a < 2 powi b"
  shows "a < b"
proof (rule ccontr)
  assume "\<not> a < b"
  then have "b \<le> a" by simp
  then have "(2::rat) powi b \<le> 2 powi a" by (intro power_int_increasing) simp_all
  with assms show False by simp
qed

lemma binade_unique:
  assumes "0 < q" "2 powi k \<le> q" "q < 2 powi (k + 1)"
  shows "binade q = k"
proof -
  from binade_bounds [OF assms(1)]
  have b: "2 powi (binade q) \<le> q" "q < 2 powi (binade q + 1)" by simp_all
  have "(2::rat) powi k < 2 powi (binade q + 1)" using assms(2) b(2) by simp
  then have 1: "k < binade q + 1" by (rule two_powi_less_D)
  have "(2::rat) powi (binade q) < 2 powi (k + 1)" using assms(3) b(1) by simp
  then have 2: "binade q < k + 1" by (rule two_powi_less_D)
  from 1 2 show ?thesis by simp
qed

lemma round_ties_to_even_int: "round_ties_to_even (of_int k) = k"
  by (simp add: round_ties_to_even_def)

lemma round_ties_to_even_near:
  "\<bar>of_int (round_ties_to_even x) - x\<bar> \<le> 1 / 2"
proof -
  have "of_int \<lfloor>x\<rfloor> \<le> x" "x < of_int \<lfloor>x\<rfloor> + 1" by linarith+
  then show ?thesis
    unfolding round_ties_to_even_def Let_def by (auto simp: abs_le_iff)
qed

lemma to_double_exact:
  assumes q: "q \<noteq> 0" and small: "binade \<bar>q\<bar> \<le> 1023"
    and k: "\<bar>q\<bar> / 2 powi (max (binade \<bar>q\<bar>) (- 1022) - 52) = of_int k"
  shows "to_double q = Fin q"
proof -
  define e where "e = max (binade \<bar>q\<bar>) (- 1022)"
  define ulp :: rat where "ulp = 2 powi (e - 52)"
  have ulp: "0 < ulp" by (simp add: ulp_def)
  have m: "round_ties_to_even (\<bar>q\<bar> / ulp) = k"
    using k by (simp add: ulp_def e_def round_ties_to_even_int)
  have val: "of_int k * ulp = \<bar>q\<bar>"
    using k ulp by (simp add: ulp_def e_def field_simps)
  have e: "e \<le> 1023" using small by (simp add: e_def)
  have top: "k < 9007199254740992" if "e = 1023"
  proof -
    have b: "binade \<bar>q\<bar> = 1023" using that by (simp add: e_def max_def split: if_splits)
    have "\<bar>q\<bar> < 2 powi (1023 + 1)" using binade_bounds [of "\<bar>q\<bar>"] q b by simp
    then have "of_int k * ulp < 2 powi 1024" using val by simp
    moreover have "ulp = 2 powi 971" using that by (simp add: ulp_def)
    ultimately have "(of_int k :: rat) * 2 powi 971 < 2 powi 53 * 2 powi 971"
      by (simp add: power_int_add [symmetric])
    then have "(of_int k :: rat) < 2 powi 53" by simp
    then have "(of_int k :: rat) < of_int 9007199254740992" by simp
    then show ?thesis by (simp only: of_int_less_iff)
  qed
  have "sgn q * \<bar>q\<bar> = q" by (simp add: sgn_mult_abs)
  then show ?thesis
    using q e top m val
    unfolding to_double_def Let_def e_def [symmetric] ulp_def [symmetric]
    by (auto simp: not_le)
qed

lemma to_double_int:
  assumes "\<bar>n\<bar> \<le> 9007199254740992"
  shows "to_double (of_int n) = Fin (of_int n)"
proof (cases "n = 0")
  case True
  then show ?thesis by (simp add: to_double_def)
next
  case False
  define q :: rat where "q = of_int n"
  define b where "b = binade \<bar>q\<bar>"
  have q0: "q \<noteq> 0" and qpos: "0 < \<bar>q\<bar>" using False by (simp_all add: q_def)
  have bb: "2 powi b \<le> \<bar>q\<bar>" "\<bar>q\<bar> < 2 powi (b + 1)"
    using binade_bounds [OF qpos] by (simp_all add: b_def)
  have aq: "\<bar>q\<bar> = of_int \<bar>n\<bar>" by (simp add: q_def)
  have "1 \<le> \<bar>n\<bar>" using False by simp
  then have "(of_int 1 :: rat) \<le> of_int \<bar>n\<bar>" by (simp only: of_int_le_iff)
  then have q1: "1 \<le> \<bar>q\<bar>" by (simp add: aq)
  have "(of_int \<bar>n\<bar> :: rat) \<le> of_int 9007199254740992" using assms by (simp only: of_int_le_iff)
  then have qmax: "\<bar>q\<bar> \<le> 2 powi 53" by (simp add: aq)
  have "(2::rat) powi 0 < 2 powi (b + 1)" using q1 bb(2) by simp
  then have b0: "0 \<le> b" using two_powi_less_D [of 0 "b + 1"] by simp
  have "(2::rat) powi b < 2 powi 54"
  proof -
    have "(2::rat) powi b \<le> 2 powi 53" using bb(1) qmax by simp
    also have "\<dots> < 2 powi 54" by simp
    finally show ?thesis .
  qed
  then have b53: "b \<le> 53" using two_powi_less_D [of b 54] by simp
  have e: "max b (- 1022) = b" using b0 by simp
  have "\<exists>k. \<bar>q\<bar> / 2 powi (b - 52) = of_int k"
  proof (cases "b \<le> 52")
    case True
    have "\<bar>q\<bar> / 2 powi (b - 52) = \<bar>q\<bar> * 2 powi (52 - b)"
      by (simp add: power_int_diff field_simps)
    also have "\<dots> = of_int \<bar>n\<bar> * 2 ^ nat (52 - b)"
      using True by (simp add: aq power_int_nonneg_exp)
    also have "\<dots> = of_int (\<bar>n\<bar> * 2 ^ nat (52 - b))" by simp
    finally show ?thesis by blast
  next
    case False
    then have b: "b = 53" using b53 by simp
    then have "\<bar>q\<bar> = 2 powi 53" using bb(1) qmax by simp
    then have "\<bar>q\<bar> / 2 powi (b - 52) = of_int 4503599627370496" using b by simp
    then show ?thesis by blast
  qed
  then obtain k where k: "\<bar>q\<bar> / 2 powi (max (binade \<bar>q\<bar>) (- 1022) - 52) = of_int k"
    using e by (auto simp: b_def)
  have "binade \<bar>q\<bar> \<le> 1023" using b53 by (simp add: b_def)
  with q0 have "to_double q = Fin q" using k by (rule to_double_exact)
  then show ?thesis by (simp add: q_def)
qed

lemma to_double_near:
  assumes lo: "2 powi (- 1022) \<le> q" and hi: "q < 2 powi 1023"
  shows "\<exists>r. to_double q = Fin r \<and> \<bar>r - q\<bar> \<le> q / 2 ^ 53"
proof -
  have qpos: "0 < q"
  proof -
    have "(0::rat) < 2 powi (- 1022)" by simp
    then show ?thesis using lo by linarith
  qed
  define b where "b = binade q"
  have bb: "2 powi b \<le> q" "q < 2 powi (b + 1)"
    using binade_bounds [OF qpos] by (simp_all add: b_def)
  have "(2::rat) powi (- 1022) < 2 powi (b + 1)" using lo bb(2) by simp
  then have blo: "- 1022 \<le> b" using two_powi_less_D [of "- 1022" "b + 1"] by simp
  have "(2::rat) powi b < 2 powi 1023" using hi bb(1) by simp
  then have bhi: "b < 1023" by (rule two_powi_less_D)
  define ulp :: rat where "ulp = 2 powi (b - 52)"
  have ulp: "0 < ulp" by (simp add: ulp_def)
  define m where "m = round_ties_to_even (q / ulp)"
  have near: "\<bar>of_int m - q / ulp\<bar> \<le> 1 / 2" unfolding m_def by (rule round_ties_to_even_near)
  have run: "to_double q = Fin (of_int m * ulp)"
    using qpos blo bhi
    by (simp add: to_double_def Let_def b_def [symmetric] ulp_def [symmetric] m_def [symmetric] max_def)
  have "\<bar>of_int m * ulp - q\<bar> = \<bar>of_int m - q / ulp\<bar> * ulp"
  proof -
    have "of_int m * ulp - q = (of_int m - q / ulp) * ulp" using ulp by (simp add: field_simps)
    then show ?thesis using ulp by (simp add: abs_mult)
  qed
  also have "\<dots> \<le> 1 / 2 * ulp" using near ulp by (intro mult_right_mono) simp_all
  also have "\<dots> = 2 powi b / 2 ^ 53"
  proof -
    have "ulp = 2 powi b / 2 powi 52" by (simp add: ulp_def power_int_diff)
    then show ?thesis by simp
  qed
  also have "\<dots> \<le> q / 2 ^ 53" using bb(1) by (simp add: divide_right_mono)
  finally show ?thesis using run by blast
qed


lemma safe_integer_exact:
  assumes "safe_integer a"
  shows "plus_minus_one_exact a"
proof (cases a)
  case (Fin x)
  define k where "k = \<lfloor>x\<rfloor>"
  have x: "x = of_int k" and small: "\<bar>x\<bar> < 9007199254740992"
    using assms Fin by (simp_all add: k_def)
  have "(of_int \<bar>k\<bar> :: rat) < of_int 9007199254740992" using small x by simp
  then have k: "\<bar>k\<bar> < 9007199254740992" by (simp only: of_int_less_iff)
  have "to_double (of_int (\<bar>k\<bar> + 1)) = Fin (of_int (\<bar>k\<bar> + 1))"
    using k by (intro to_double_int) simp
  moreover have "to_double (of_int (\<bar>k\<bar> - 1)) = Fin (of_int (\<bar>k\<bar> - 1))"
    using k by (intro to_double_int) simp
  ultimately show ?thesis using Fin x by simp
qed (use assms in simp_all)

lemma diffBiggerThanOne_exact:
  assumes "plus_minus_one_exact a"
  shows "diffBiggerThanOne a b = (\<not> abs_equal_or_one_apart a b)"
  using assms
  by (cases a; cases b) (auto simp: diffBiggerThanOne_def js_sub_def)

lemma near_bounds:
  assumes "\<bar>r - q\<bar> \<le> q / 2 ^ 53" and "0 \<le> (q::rat)"
  shows "q / 2 \<le> r \<and> r \<le> 2 * q"
proof -
  have "q / 2 ^ 53 \<le> q / 2 ^ 1" using assms(2) by (intro divide_left_mono) simp_all
  then have "\<bar>r - q\<bar> \<le> q / 2" using assms(1) by simp
  then show ?thesis using assms(2) by linarith
qed

lemma deltaAbsRatio_safe:
  assumes new: "window_dimension new" and old: "window_dimension old"
  shows "deltaAbsRatio new old = PosInf \<or> deltaAbsRatio new old = NaN
       \<or> safe_integer (deltaAbsRatio new old)"
proof (cases "old = 0")
  case True
  then show ?thesis by (simp add: deltaAbsRatio_def to_double_def)
next
  case False
  then have old1: "1 \<le> old" and oldmax: "old < 2147483648"
    using old by (simp_all add: window_dimension_def)
  have new0: "0 \<le> new" and newmax: "new < 2147483648"
    using new by (simp_all add: window_dimension_def)
  define q1 :: rat where "q1 = of_int old / 100"
  have "(of_int 1 :: rat) \<le> of_int old" using old1 by (simp only: of_int_le_iff)
  then have q1lo: "1 / 100 \<le> q1" by (simp add: q1_def)
  have "(of_int old :: rat) < of_int 2147483648" using oldmax by (simp only: of_int_less_iff)
  then have q1hi: "q1 < 2 ^ 25" by (simp add: q1_def)
  have tiny: "(2::rat) powi (- 1022) \<le> 1 / 2 ^ 40"
  proof -
    have "(2::rat) powi (- 1022) \<le> 2 powi (- 40)" by (intro power_int_increasing) simp_all
    then show ?thesis by (simp add: power_int_minus_divide)
  qed
  have huge: "(2 ^ 40 :: rat) \<le> 2 powi 1023"
  proof -
    have "(2::rat) powi 40 \<le> 2 powi 1023" by (intro power_int_increasing) simp_all
    then show ?thesis by simp
  qed
  have "2 powi (- 1022) \<le> q1" using tiny q1lo by simp
  moreover have "q1 < 2 powi 1023" using huge q1hi by simp
  ultimately obtain r1 where r1: "to_double q1 = Fin r1" and n1: "\<bar>r1 - q1\<bar> \<le> q1 / 2 ^ 53"
    using to_double_near by blast
  have q1pos: "0 \<le> q1" using q1lo by linarith
  have r1lo: "q1 / 2 \<le> r1" and r1hi: "r1 \<le> 2 * q1"
    using near_bounds [OF n1 q1pos] by simp_all
  have r1pos: "0 < r1" using r1lo q1lo by linarith
  have d1: "js_div (Fin (of_int old)) (Fin 100) = Fin r1"
    using r1 by (simp add: q1_def)
  show ?thesis
  proof (cases "new = 0")
    case True
    then show ?thesis unfolding deltaAbsRatio_def d1 using r1pos by (simp add: to_double_def)
  next
    case False
    then have new1: "1 \<le> new" using new0 by simp
    define q2 :: rat where "q2 = of_int new / r1"
    have n1': "(1::rat) \<le> of_int new"
    proof -
      have "(of_int 1 :: rat) \<le> of_int new" using new1 by (simp only: of_int_le_iff)
      then show ?thesis by simp
    qed
    have n2': "(of_int new :: rat) < 2147483648"
    proof -
      have "(of_int new :: rat) < of_int 2147483648" using newmax by (simp only: of_int_less_iff)
      then show ?thesis by simp
    qed
    have q2lo: "1 / 2 ^ 40 \<le> q2"
    proof -
      have "r1 \<le> 2 ^ 40 * of_int new" using r1hi q1hi n1' by simp
      then show ?thesis using r1pos by (simp add: q2_def field_simps)
    qed
    have q2hi: "q2 < 2 ^ 39"
    proof -
      have "of_int new < 2 ^ 39 * r1" using r1lo q1lo n2' by simp
      then show ?thesis using r1pos by (simp add: q2_def field_simps)
    qed
    have "2 powi (- 1022) \<le> q2" using tiny q2lo by simp
    moreover have "q2 < 2 powi 1023" using huge q2hi by simp
    ultimately obtain r2 where r2: "to_double q2 = Fin r2" and n2: "\<bar>r2 - q2\<bar> \<le> q2 / 2 ^ 53"
      using to_double_near by blast
    have q2pos: "0 < q2"
    proof -
      have "(0::rat) < 1 / 2 ^ 40" by simp
      then show ?thesis using q2lo by linarith
    qed
    have r2lo: "0 \<le> r2" and r2hi: "r2 < 2 ^ 40"
      using near_bounds [OF n2] q2pos q2hi by simp_all
    have d2: "js_div (Fin (of_int new)) (Fin r1) = Fin r2"
      using r2 r1pos by (simp add: q2_def)
    define k where "k = round r2"
    have k0: "0 \<le> k" using r2lo by (simp add: k_def round_def)
    define f where "f = \<lfloor>r2\<rfloor>"
    have "k \<le> f + 1" unfolding k_def f_def round_def by linarith
    moreover have "f < 1099511627776" using r2hi by (simp add: f_def floor_less_iff)
    ultimately have khi: "k < 9007199254740992" by linarith
    have val: "deltaAbsRatio new old = Fin (of_int k)"
      unfolding deltaAbsRatio_def d1 d2 using k0 by (simp add: k_def)
    have "(of_int k :: rat) < of_int 9007199254740992" using khi by (simp only: of_int_less_iff)
    then have "safe_integer (Fin (of_int k))" using k0 by simp
    then show ?thesis using val by simp
  qed
qed

lemma deltaAbsRatio_exact:
  assumes "window_dimension new" and "window_dimension old"
  shows "plus_minus_one_exact (deltaAbsRatio new old)"
  using deltaAbsRatio_safe [OF assms] safe_integer_exact by auto

section \<open>Properties of the ratio closeness test\<close>

text \<open>
  Claim C7, amended. \<open>diffBiggerThanOne a b\<close> is false exactly when \<open>|a|\<close> equals
  \<open>|b|\<close>, or the double sum \<open>|a| + 1\<close> or the double difference \<open>|a| - 1\<close> equals
  \<open>|b|\<close>. For every \<open>a\<close> on which that sum and that difference need no rounding, this is
  exactly when the absolute values of \<open>a\<close> and \<open>b\<close> are equal or differ by exactly 1 in
  either direction; and every whole number of magnitude below \<open>2^53\<close> is such an \<open>a\<close>
  (as are the infinities, two of which count as equal, and NaN, which equals nothing).
\<close>

theorem diffBiggerThanOne_false_iff:
  "(diffBiggerThanOne a b = False)
     = (js_seq (js_abs a) (js_abs b)
        \<or> js_seq (js_add (js_abs a) (Fin 1)) (js_abs b)
        \<or> js_seq (js_sub (js_abs a) (Fin 1)) (js_abs b))
   \<and> (plus_minus_one_exact a \<longrightarrow>
        (diffBiggerThanOne a b = False) = abs_equal_or_one_apart a b)
   \<and> (safe_integer a \<longrightarrow>
        plus_minus_one_exact a
        \<and> (diffBiggerThanOne a b = False) = abs_equal_or_one_apart a b)"
  using diffBiggerThanOne_exact [of a b] safe_integer_exact [of a]
  by (auto simp: diffBiggerThanOne_def Let_def)

theorem diffBiggerThanOne_false_iff_witness:
  "safe_integer (Fin 50) \<and> plus_minus_one_exact (Fin 50)
   \<and> diffBiggerThanOne (Fin 50) (Fin (- 51)) = False
   \<and> diffBiggerThanOne (Fin 50) (Fin 52) = True
   \<and> plus_minus_one_exact PosInf \<and> diffBiggerThanOne PosInf NegInf = False
   \<and> plus_minus_one_exact NaN \<and> diffBiggerThanOne NaN NaN = True"
  using diffBiggerThanOne_false_iff [of "Fin 50" "Fin (- 51)"]
    diffBiggerThanOne_false_iff [of "Fin 50" "Fin 52"]
    diffBiggerThanOne_false_iff [of PosInf NegInf]
    diffBiggerThanOne_false_iff [of NaN NaN]
  by simp

text \<open>
  Claim C7 as stated, for all numbers, fails where the sum or the difference is rounded.
  The doubles \<open>2^53 + 2\<close> and \<open>2^53 + 4\<close> are 2 apart, and the test returns false,
  because \<open>(2^53 + 2) + 1\<close> is rounded to \<open>2^53 + 4\<close>. The doubles \<open>2^-60\<close> and 1
  are less than 1 apart, and the test returns false, because \<open>2^-60 + 1\<close> is rounded
  to 1.
\<close>

theorem diffBiggerThanOne_rounding_counterexample:
  "diffBiggerThanOne (Fin 9007199254740994) (Fin 9007199254740996) = False
   \<and> \<not> abs_equal_or_one_apart (Fin 9007199254740994) (Fin 9007199254740996)
   \<and> to_double 9007199254740994 = Fin 9007199254740994
   \<and> to_double 9007199254740996 = Fin 9007199254740996
   \<and> diffBiggerThanOne (Fin (1 / 1152921504606846976)) (Fin 1) = False
   \<and> \<not> abs_equal_or_one_apart (Fin (1 / 1152921504606846976)) (Fin 1)
   \<and> to_double (1 / 1152921504606846976) = Fin (1 / 1152921504606846976)"
  by code_simp

section \<open>Properties of the document tree\<close>

text \<open>Well-formedness, unfolded: what it says about each existing node.\<close>

lemma wf_dom_iff:
  "wf_dom d \<longleftrightarrow>
     (\<forall>n<nextId d.
        distinct (childNodes d n)
      \<and> (\<forall>c\<in>set (childNodes d n). c < nextId d \<and> parentNode d c = Some n)
      \<and> (\<forall>q. parentNode d n = Some q \<longrightarrow> q < nextId d \<and> n \<in> set (childNodes d q)))"
proof -
  have eq: "(case parentNode d n of None \<Rightarrow> True
         | Some q \<Rightarrow> q < nextId d \<and> n \<in> set (childNodes d q))
      = (\<forall>q. parentNode d n = Some q \<longrightarrow> q < nextId d \<and> n \<in> set (childNodes d q))" for n
    by (simp split: option.split)
  have "wf_dom d = (\<forall>n<nextId d.
        distinct (childNodes d n)
      \<and> (\<forall>c\<in>set (childNodes d n). c < nextId d \<and> parentNode d c = Some n)
      \<and> (case parentNode d n of None \<Rightarrow> True
         | Some q \<Rightarrow> q < nextId d \<and> n \<in> set (childNodes d q)))"
    unfolding wf_dom_def list_all_iff set_upt Ball_def atLeastLessThan_iff by simp
  then show ?thesis
    by (simp only: eq)
qed

lemma wf_distinct: "wf_dom d \<Longrightarrow> n < nextId d \<Longrightarrow> distinct (childNodes d n)"
  unfolding wf_dom_iff by blast

lemma wf_child:
  "wf_dom d \<Longrightarrow> n < nextId d \<Longrightarrow> c \<in> set (childNodes d n)
   \<Longrightarrow> c < nextId d \<and> parentNode d c = Some n"
  unfolding wf_dom_iff by blast

lemma wf_parent:
  "wf_dom d \<Longrightarrow> n < nextId d \<Longrightarrow> parentNode d n = Some q
   \<Longrightarrow> q < nextId d \<and> n \<in> set (childNodes d q)"
  unfolding wf_dom_iff by blast

lemma ancestor_walk_root: "parentNode d n = None \<Longrightarrow> ancestor_walk k d a n = (a = n)"
  by (cases k) simp_all

lemma wf_not_child:
  "wf_dom d \<Longrightarrow> q < nextId d \<Longrightarrow> parentNode d e \<noteq> Some q \<Longrightarrow> e \<notin> set (childNodes d q)"
  using wf_child by blast

lemma appendChild_run:
  assumes F: "parentNode d F = None"
    and e: "e \<noteq> F" "kind d e \<noteq> DocumentFragment"
  shows "Node_appendChild d F e =
     Inr ((remove_node d e)\<lparr>parentNode := (parentNode (remove_node d e))(e := Some F),
        childNodes := (childNodes (remove_node d e))
           (F := childNodes (remove_node d e) F @ [e])\<rparr>)"
  using F e
  by (simp add: Node_appendChild_def Node_insertBefore_def inclusive_ancestor_def
      ancestor_walk_root splice_before_def Let_def)

lemma remove_node_fields:
  "nextId (remove_node d e) = nextId d"
  "kind (remove_node d e) = kind d"
  "parentNode (remove_node d e) = (parentNode d)(e := None)"
  by (auto simp: remove_node_def split: option.splits)

lemma remove_node_childNodes:
  assumes wf: "wf_dom d" and q: "q < nextId d"
  shows "childNodes (remove_node d e) q = removeAll e (childNodes d q)"
proof (cases "parentNode d e = Some q")
  case True
  then show ?thesis by (simp add: remove_node_def)
next
  case False
  then have "e \<notin> set (childNodes d q)" using wf q by (rule_tac wf_not_child)
  then show ?thesis by (simp add: remove_node_def split: option.splits)
qed

lemma wf_moved:
  assumes wf: "wf_dom d" and F: "F < nextId d" and e: "e < nextId d"
    and nid: "nextId d1 = nextId d"
    and par: "parentNode d1 = (parentNode d)(e := Some F)"
    and kids: "\<forall>q<nextId d. childNodes d1 q =
                 (if q = F then removeAll e (childNodes d F) @ [e]
                  else removeAll e (childNodes d q))"
  shows "wf_dom d1"
  unfolding wf_dom_iff
proof (intro allI impI conjI ballI)
  fix n assume "n < nextId d1"
  then have n: "n < nextId d" by (simp add: nid)
  have kn: "childNodes d1 n = (if n = F then removeAll e (childNodes d F) @ [e]
                  else removeAll e (childNodes d n))"
    using kids n by blast
  show "distinct (childNodes d1 n)"
    using wf_distinct [OF wf n] kn by (cases "n = F") (simp_all add: distinct_removeAll)
  { fix c assume c: "c \<in> set (childNodes d1 n)"
    show "c < nextId d1"
    proof (cases "c = e")
      case True then show ?thesis using e by (simp add: nid)
    next
      case False
      then have "c \<in> set (childNodes d n)" using c by (simp add: kn split: if_splits)
      then show ?thesis using wf_child [OF wf n] by (simp add: nid)
    qed
    show "parentNode d1 c = Some n"
    proof (cases "c = e")
      case True
      then have "n = F" using c by (simp add: kn split: if_splits)
      then show ?thesis using True by (simp add: par)
    next
      case False
      then have "c \<in> set (childNodes d n)" using c by (simp add: kn split: if_splits)
      then have "parentNode d c = Some n" using wf_child [OF wf n] by blast
      then show ?thesis using False by (simp add: par)
    qed }
  { fix q assume q: "parentNode d1 n = Some q"
    show "q < nextId d1"
    proof (cases "n = e")
      case True then show ?thesis using q F by (simp add: par nid)
    next
      case False
      then have "parentNode d n = Some q" using q by (simp add: par)
      then show ?thesis using wf_parent [OF wf n] by (simp add: nid)
    qed
    show "n \<in> set (childNodes d1 q)"
    proof (cases "n = e")
      case True
      then have "q = F" using q by (simp add: par)
      then show ?thesis using True kids F by simp
    next
      case False
      then have "parentNode d n = Some q" using q by (simp add: par)
      then have "q < nextId d" "n \<in> set (childNodes d q)"
        using wf_parent [OF wf n] by blast+
      then show ?thesis using False kids by (cases "q = F") simp_all
    qed }
qed

lemma appendChild_element:
  assumes wf: "wf_dom d"
    and F: "F < nextId d" "parentNode d F = None"
    and e: "e < nextId d" "e \<noteq> F" "kind d e \<noteq> DocumentFragment"
  shows "\<exists>d1. Node_appendChild d F e = Inr d1
           \<and> wf_dom d1 \<and> nextId d1 = nextId d \<and> kind d1 = kind d
           \<and> parentNode d1 = (parentNode d)(e := Some F)
           \<and> (\<forall>q<nextId d. childNodes d1 q =
                 (if q = F then removeAll e (childNodes d F) @ [e]
                  else removeAll e (childNodes d q)))"
proof -
  define d1 where "d1 = (remove_node d e)\<lparr>parentNode := (parentNode (remove_node d e))(e := Some F),
        childNodes := (childNodes (remove_node d e))
           (F := childNodes (remove_node d e) F @ [e])\<rparr>"
  have run: "Node_appendChild d F e = Inr d1"
    unfolding d1_def using F(2) e(2,3) by (rule appendChild_run)
  have nid: "nextId d1 = nextId d" and ty: "kind d1 = kind d"
    by (simp_all add: d1_def remove_node_fields)
  have par: "parentNode d1 = (parentNode d)(e := Some F)"
    by (simp add: d1_def remove_node_fields)
  have kids: "\<forall>q<nextId d. childNodes d1 q =
                 (if q = F then removeAll e (childNodes d F) @ [e]
                  else removeAll e (childNodes d q))"
    using remove_node_childNodes [OF wf] F(1) by (simp add: d1_def)
  have "wf_dom d1" using wf F(1) e(1) nid par kids by (rule wf_moved)
  with run nid ty par kids show ?thesis by blast
qed

lemma append_all_fields:
  assumes "wf_dom d" "F < nextId d" "parentNode d F = None"
    and "\<forall>e\<in>set es. e < nextId d \<and> e \<noteq> F \<and> kind d e \<noteq> DocumentFragment"
  shows "\<exists>a' d'. append_all F es a d = Inr (a', d')
           \<and> wf_dom d' \<and> nextId d' = nextId d \<and> kind d' = kind d
           \<and> parentNode d' = (\<lambda>n. if n \<in> set es then Some F else parentNode d n)
           \<and> (\<forall>q<nextId d. childNodes d' q =
                 (if q = F then filter (\<lambda>n. n \<notin> set es) (childNodes d F) @ remdups es
                  else filter (\<lambda>n. n \<notin> set es) (childNodes d q)))"
  using assms
proof (induction es arbitrary: a d)
  case Nil
  then show ?case by simp
next
  case (Cons e es)
  from Cons.prems obtain d1 where d1: "Node_appendChild d F e = Inr d1"
      "wf_dom d1" "nextId d1 = nextId d" "kind d1 = kind d"
      "parentNode d1 = (parentNode d)(e := Some F)"
      "\<forall>q<nextId d. childNodes d1 q =
                 (if q = F then removeAll e (childNodes d F) @ [e]
                  else removeAll e (childNodes d q))"
    using appendChild_element [of d F e] by auto
  define a1 where "a1 = (if Some e = a then previousSibling d e else a)"
  have pre1: "F < nextId d1" "parentNode d1 F = None"
      "\<forall>e\<in>set es. e < nextId d1 \<and> e \<noteq> F \<and> kind d1 e \<noteq> DocumentFragment"
    using Cons.prems d1(3,4,5) by auto
  from Cons.IH [OF d1(2) pre1, of a1] obtain a' d' where
    d': "append_all F es a1 d1 = Inr (a', d')"
      "wf_dom d'" "nextId d' = nextId d1" "kind d' = kind d1"
      "parentNode d' = (\<lambda>n. if n \<in> set es then Some F else parentNode d1 n)"
      "\<forall>q<nextId d1. childNodes d' q =
                 (if q = F then filter (\<lambda>n. n \<notin> set es) (childNodes d1 F) @ remdups es
                  else filter (\<lambda>n. n \<notin> set es) (childNodes d1 q))"
    by blast
  have run: "append_all F (e # es) a d = Inr (a', d')"
    using d1(1) d'(1) by (simp add: a1_def)
  have par: "parentNode d' = (\<lambda>n. if n \<in> set (e # es) then Some F else parentNode d n)"
    by (auto simp: d'(5) d1(5))
  have kids: "\<forall>q<nextId d. childNodes d' q =
                 (if q = F then filter (\<lambda>n. n \<notin> set (e # es)) (childNodes d F) @ remdups (e # es)
                  else filter (\<lambda>n. n \<notin> set (e # es)) (childNodes d q))"
  proof (intro allI impI)
    fix q assume q: "q < nextId d"
    have k1: "childNodes d1 q = (if q = F then removeAll e (childNodes d F) @ [e]
                  else removeAll e (childNodes d q))"
      using d1(6) q by blast
    have k2: "childNodes d' q = (if q = F then filter (\<lambda>n. n \<notin> set es) (childNodes d1 F) @ remdups es
                  else filter (\<lambda>n. n \<notin> set es) (childNodes d1 q))"
      using d'(6) q d1(3) by simp
    have flt: "filter (\<lambda>n. n \<notin> set es) (removeAll e xs) = filter (\<lambda>n. n \<notin> set (e # es)) xs"
      for xs by (induction xs) auto
    show "childNodes d' q =
         (if q = F then filter (\<lambda>n. n \<notin> set (e # es)) (childNodes d F) @ remdups (e # es)
          else filter (\<lambda>n. n \<notin> set (e # es)) (childNodes d q))"
      using k1 k2 by (cases "q = F") (simp_all add: flt)
  qed
  show ?case
    using run d'(2) par kids by (simp add: d'(3,4) d1(3,4))
qed

lemma takeWhile_neq_append:
  "x \<notin> set L \<Longrightarrow> takeWhile (\<lambda>m. m \<noteq> x) (L @ x # R) = L"
  by (induction L) auto

lemma dropWhile_neq_append:
  "x \<notin> set L \<Longrightarrow> dropWhile (\<lambda>m. m \<noteq> x) (L @ x # R) = x # R"
  by (induction L) auto

lemma filter_neq_last:
  "distinct L \<Longrightarrow> L \<noteq> [] \<Longrightarrow> filter (\<lambda>n. n \<noteq> last L) L = butlast L"
proof (induction L rule: rev_induct)
  case Nil then show ?case by simp
next
  case (snoc x xs)
  then have "x \<notin> set xs" by simp
  then have "filter (\<lambda>n. n \<noteq> x) xs = xs" by (induction xs) auto
  then show ?case by simp
qed

lemma last_filter_keep:
  "xs \<noteq> [] \<Longrightarrow> P (last xs) \<Longrightarrow> filter P xs \<noteq> [] \<and> last (filter P xs) = last xs"
  by (induction xs rule: rev_induct) auto

lemma previousSibling_split:
  assumes "parentNode d x = Some p" "childNodes d p = L @ x # R" "x \<notin> set L"
  shows "previousSibling d x = (if L = [] then None else Some (last L))"
  using assms by (simp add: previousSibling_def takeWhile_neq_append)

lemma nextSibling_split:
  assumes "parentNode d x = Some p" "childNodes d p = L @ x # R" "x \<notin> set L"
  shows "nextSibling d x = (case R of [] \<Rightarrow> None | y # _ \<Rightarrow> Some y)"
  using assms by (simp add: nextSibling_def dropWhile_neq_append split: list.splits)

lemma anchor_step:
  assumes dist: "distinct (L @ R)" and kids: "childNodes d p = L @ R"
    and par: "\<forall>x\<in>set (L @ R). parentNode d x = Some p"
    and rel: "anchor_rel c a L R"
  shows "anchor_rel c (if Some e = a then previousSibling d e else a)
           (filter (\<lambda>n. n \<noteq> e) L) (filter (\<lambda>n. n \<noteq> e) R)"
proof (cases "a = Some c")
  case True
  with rel obtain R1 where R: "R = c # R1" by (cases R) (auto simp: anchor_rel_def)
  have cL: "c \<notin> set L" using dist R by auto
  show ?thesis
  proof (cases "e = c")
    case e: True
    have "previousSibling d c = (if L = [] then None else Some (last L))"
      using par kids R cL by (intro previousSibling_split [of d c p L R1]) auto
    moreover have "filter (\<lambda>n. n \<noteq> c) L = L" using cL by (induction L) auto
    moreover have "L \<noteq> [] \<Longrightarrow> last L \<noteq> c" using cL last_in_set by metis
    ultimately show ?thesis using True e cL by (auto simp: anchor_rel_def)
  next
    case False
    then show ?thesis using True R by (auto simp: anchor_rel_def)
  qed
next
  case moved: False
  with rel have c: "c \<notin> set (L @ R)" and a: "a = (if L = [] then None else Some (last L))"
    by (simp_all add: anchor_rel_def)
  show ?thesis
  proof (cases "Some e = a")
    case True
    with a have L: "L \<noteq> []" "e = last L" by (auto split: if_splits)
    have split: "L = butlast L @ [e]" using L by simp
    have kids': "childNodes d p = butlast L @ e # R" using kids split by (metis append.assoc append_Cons append_Nil)
    have "distinct (butlast L @ [e])" using dist split by (metis distinct_append)
    then have eb: "e \<notin> set (butlast L)" by simp
    have pe: "parentNode d e = Some p" using par L by auto
    have prev: "previousSibling d e = (if butlast L = [] then None else Some (last (butlast L)))"
      using pe kids' eb by (rule previousSibling_split)
    have fl: "filter (\<lambda>n. n \<noteq> e) L = butlast L"
      using filter_neq_last [of L] dist L by simp
    have "butlast L \<noteq> [] \<Longrightarrow> last (butlast L) \<noteq> c"
      using c by (metis Un_iff in_set_butlastD last_in_set set_append)
    then show ?thesis using True prev fl c by (auto simp: anchor_rel_def dest: in_set_butlastD)
  next
    case False
    have "L \<noteq> [] \<Longrightarrow> last (filter (\<lambda>n. n \<noteq> e) L) = last L \<and> filter (\<lambda>n. n \<noteq> e) L \<noteq> []"
      using False a last_filter_keep [of L "\<lambda>n. n \<noteq> e"] by auto
    then show ?thesis using False moved a c by (auto simp: anchor_rel_def)
  qed
qed

lemma removeAll_as_filter: "removeAll e xs = filter (\<lambda>n. n \<noteq> e) xs"
  by (induction xs) auto

lemma filter_notin_Cons:
  "filter (\<lambda>n. n \<notin> set es) (filter (\<lambda>n. n \<noteq> e) xs) = filter (\<lambda>n. n \<notin> set (e # es)) xs"
  by (induction xs) auto

lemma append_all_anchor:
  assumes "wf_dom d" "F < nextId d" "parentNode d F = None"
    and "\<forall>e\<in>set es. e < nextId d \<and> e \<noteq> F \<and> kind d e \<noteq> DocumentFragment"
    and "p < nextId d" "p \<noteq> F" "childNodes d p = L @ R" "anchor_rel c a L R"
    and "append_all F es a d = Inr (a', d')"
  shows "anchor_rel c a' (filter (\<lambda>n. n \<notin> set es) L) (filter (\<lambda>n. n \<notin> set es) R)"
  using assms
proof (induction es arbitrary: a d L R)
  case Nil
  then show ?case by simp
next
  case (Cons e es)
  from Cons.prems(1-4) obtain d1 where d1: "Node_appendChild d F e = Inr d1"
      "wf_dom d1" "nextId d1 = nextId d" "kind d1 = kind d"
      "parentNode d1 = (parentNode d)(e := Some F)"
      "\<forall>q<nextId d. childNodes d1 q =
                 (if q = F then removeAll e (childNodes d F) @ [e]
                  else removeAll e (childNodes d q))"
    using appendChild_element [of d F e] by auto
  define a1 where "a1 = (if Some e = a then previousSibling d e else a)"
  have run1: "append_all F es a1 d1 = Inr (a', d')"
    using Cons.prems(9) d1(1) by (simp add: a1_def)
  have dist: "distinct (L @ R)"
    using wf_distinct [OF Cons.prems(1) Cons.prems(5)] Cons.prems(7) by simp
  have par: "\<forall>x\<in>set (L @ R). parentNode d x = Some p"
    using wf_child [OF Cons.prems(1) Cons.prems(5)] Cons.prems(7) by simp
  have rel1: "anchor_rel c a1 (filter (\<lambda>n. n \<noteq> e) L) (filter (\<lambda>n. n \<noteq> e) R)"
    unfolding a1_def using dist Cons.prems(7) par Cons.prems(8) by (rule anchor_step)
  have kids1: "childNodes d1 p = filter (\<lambda>n. n \<noteq> e) L @ filter (\<lambda>n. n \<noteq> e) R"
    using d1(6) Cons.prems(5,6,7) by (simp add: removeAll_as_filter)
  have pre1: "F < nextId d1" "parentNode d1 F = None"
      "\<forall>e\<in>set es. e < nextId d1 \<and> e \<noteq> F \<and> kind d1 e \<noteq> DocumentFragment"
      "p < nextId d1"
    using Cons.prems d1(3,4,5) by auto
  have "anchor_rel c a' (filter (\<lambda>n. n \<notin> set es) (filter (\<lambda>n. n \<noteq> e) L))
          (filter (\<lambda>n. n \<notin> set es) (filter (\<lambda>n. n \<noteq> e) R))"
    using d1(2) pre1(1-3) pre1(4) Cons.prems(6) kids1 rel1 run1 by (rule Cons.IH)
  then show ?case by (simp only: filter_notin_Cons)
qed

lemma anchor_final:
  assumes dist: "distinct (L @ R)" and kids: "childNodes d p = L @ R"
    and par: "\<forall>x\<in>set (L @ R). parentNode d x = Some p"
    and rel: "anchor_rel c a L R"
  shows "splice_before (L @ R) (valid_anchor d p (Some c) a) X = L @ X @ R
       \<and> (case valid_anchor d p (Some c) a of None \<Rightarrow> True | Some r \<Rightarrow> r \<in> set (L @ R))"
proof (cases "a = Some c")
  case True
  with rel obtain R1 where R: "R = c # R1" by (cases R) (auto simp: anchor_rel_def)
  have cL: "c \<notin> set L" using dist R by auto
  show ?thesis using True R cL
    by (simp add: valid_anchor_def splice_before_def takeWhile_neq_append dropWhile_neq_append)
next
  case moved: False
  with rel have c: "c \<notin> set (L @ R)" and a: "a = (if L = [] then None else Some (last L))"
    by (simp_all add: anchor_rel_def)
  show ?thesis
  proof (cases "L = []")
    case True
    then show ?thesis using a kids
      by (cases R) (simp_all add: valid_anchor_def splice_before_def firstChild_def)
  next
    case False
    define x where "x = last L"
    have split: "L = butlast L @ [x]" using False by (simp add: x_def)
    have "distinct (butlast L @ [x])" using dist split by (metis distinct_append)
    then have xb: "x \<notin> set (butlast L)" by simp
    have xc: "x \<noteq> c" using c False x_def by auto
    have px: "parentNode d x = Some p" using par False x_def by auto
    have kids': "childNodes d p = butlast L @ x # R"
      using kids split by (metis append.assoc append_Cons append_Nil)
    have nxt: "nextSibling d x = (case R of [] \<Rightarrow> None | y # _ \<Rightarrow> Some y)"
      using px kids' xb by (rule nextSibling_split)
    have va: "valid_anchor d p (Some c) a = (case R of [] \<Rightarrow> None | y # _ \<Rightarrow> Some y)"
      using a False xc nxt by (simp add: valid_anchor_def x_def)
    show ?thesis
    proof (cases R)
      case Nil
      then show ?thesis using va by (simp add: splice_before_def)
    next
      case (Cons y R1)
      then have "y \<notin> set L" using dist by auto
      then show ?thesis using va Cons
        by (simp add: splice_before_def takeWhile_neq_append dropWhile_neq_append)
    qed
  qed
qed

lemma ancestor_walk_self: "ancestor_walk k d n n"
  by (cases k) simp_all

lemma fragment_not_ancestor:
  assumes bound: "\<forall>m<N. \<forall>q. parentNode d m = Some q \<longrightarrow> q < N"
    and F: "N \<le> F"
    and par1: "parentNode d1 = (\<lambda>m. if m \<in> S then Some F else ((parentNode d)(F := None)) m)"
  shows "n < N \<Longrightarrow> \<forall>e\<in>S. \<not> ancestor_walk k d e n \<Longrightarrow> \<not> ancestor_walk (Suc k) d1 F n"
proof (induction k arbitrary: n)
  case 0
  then have nS: "n \<notin> S" by auto
  have nF: "n \<noteq> F" using 0 F by simp
  have "parentNode d1 n = parentNode d n" using nS nF by (simp add: par1)
  moreover have "\<And>q. parentNode d n = Some q \<Longrightarrow> q \<noteq> F" using bound 0(1) F by fastforce
  ultimately show ?case using nF by (auto split: option.splits)
next
  case (Suc k)
  have nS: "n \<notin> S" using Suc.prems(2) ancestor_walk_self by blast
  have nF: "n \<noteq> F" using Suc.prems(1) F by simp
  have pn: "parentNode d1 n = parentNode d n" using nS nF by (simp add: par1)
  show ?case
  proof (cases "parentNode d n")
    case None
    then show ?thesis using pn nF by simp
  next
    case (Some q)
    have q: "q < N" using bound Suc.prems(1) Some by blast
    have "\<forall>e\<in>S. \<not> ancestor_walk k d e q" using Suc.prems(2) Some by auto
    then have "\<not> ancestor_walk (Suc k) d1 F q" using q by (rule_tac Suc.IH)
    then show ?thesis using pn nF Some by simp
  qed
qed

lemma createDocumentFragment_wf:
  assumes wf: "wf_dom d"
  shows "wf_dom (snd (createDocumentFragment d))"
  unfolding wf_dom_iff
proof (intro allI impI conjI ballI)
  let ?d0 = "snd (createDocumentFragment d)"
  fix n assume "n < nextId ?d0"
  then have n: "n < nextId d \<or> n = nextId d" by (auto simp: createDocumentFragment_def)
  show "distinct (childNodes ?d0 n)"
    using n wf_distinct [OF wf] by (auto simp: createDocumentFragment_def)
  { fix c assume "c \<in> set (childNodes ?d0 n)"
    then have "n < nextId d" "c \<in> set (childNodes d n)"
      using n by (auto simp: createDocumentFragment_def split: if_splits)
    then have "c < nextId d \<and> parentNode d c = Some n" using wf_child [OF wf] by blast
    then show "c < nextId ?d0" "parentNode ?d0 c = Some n"
      by (auto simp: createDocumentFragment_def) }
  { fix q assume "parentNode ?d0 n = Some q"
    then have n': "n < nextId d" and "parentNode d n = Some q"
      using n by (auto simp: createDocumentFragment_def split: if_splits)
    then have "q < nextId d \<and> n \<in> set (childNodes d q)" using wf_parent [OF wf] by blast
    then show "q < nextId ?d0" "n \<in> set (childNodes ?d0 q)"
      by (auto simp: createDocumentFragment_def) }
qed

lemma wf_remove_node:
  assumes wf: "wf_dom d"
  shows "wf_dom (remove_node d e)"
  unfolding wf_dom_iff
proof (intro allI impI conjI ballI)
  let ?d1 = "remove_node d e"
  fix n assume "n < nextId ?d1"
  then have n: "n < nextId d" by (simp add: remove_node_fields)
  have kn: "childNodes ?d1 n = removeAll e (childNodes d n)"
    using wf n by (rule remove_node_childNodes)
  show "distinct (childNodes ?d1 n)"
    using wf_distinct [OF wf n] by (simp add: kn distinct_removeAll)
  { fix c assume "c \<in> set (childNodes ?d1 n)"
    then have c: "c \<noteq> e" "c \<in> set (childNodes d n)" by (simp_all add: kn)
    then have "c < nextId d \<and> parentNode d c = Some n" using wf_child [OF wf n] by blast
    then show "c < nextId ?d1" "parentNode ?d1 c = Some n"
      using c(1) by (simp_all add: remove_node_fields) }
  { fix q assume q: "parentNode ?d1 n = Some q"
    then have ne: "n \<noteq> e" and "parentNode d n = Some q"
      by (auto simp: remove_node_fields split: if_splits)
    then have q': "q < nextId d" "n \<in> set (childNodes d q)" using wf_parent [OF wf n] by blast+
    show "q < nextId ?d1" using q' by (simp add: remove_node_fields)
    show "n \<in> set (childNodes ?d1 q)"
      using q' ne by (simp add: remove_node_childNodes [OF wf]) }
qed

lemma wf_insert_fragment:
  assumes wf: "wf_dom d1" and F: "F < nextId d1" and p: "p < nextId d1" "p \<noteq> F"
    and LR: "childNodes d1 p = L @ R"
    and d': "nextId d' = nextId d1"
      "parentNode d' = (\<lambda>m. if m \<in> set (childNodes d1 F) then Some p else parentNode d1 m)"
      "childNodes d' = (childNodes d1)(F := [], p := L @ childNodes d1 F @ R)"
  shows "wf_dom d'"
  unfolding wf_dom_iff
proof (intro allI impI conjI ballI)
  let ?X = "childNodes d1 F"
  have X: "\<And>x. x \<in> set ?X \<Longrightarrow> x < nextId d1 \<and> parentNode d1 x = Some F"
    using wf_child [OF wf F] by blast
  have K: "\<And>x. x \<in> set (L @ R) \<Longrightarrow> x < nextId d1 \<and> parentNode d1 x = Some p"
    using wf_child [OF wf p(1)] LR by simp
  have disj: "set ?X \<inter> set (L @ R) = {}" using X K p(2) by fastforce
  fix n assume "n < nextId d'"
  then have n: "n < nextId d1" by (simp add: d')
  show "distinct (childNodes d' n)"
  proof -
    have "distinct (L @ R)" using wf_distinct [OF wf p(1)] LR by simp
    moreover have "distinct ?X" using wf F by (rule wf_distinct)
    ultimately have "distinct (L @ ?X @ R)" using disj by auto
    then show ?thesis using wf_distinct [OF wf n] by (simp add: d')
  qed
  { fix c assume c: "c \<in> set (childNodes d' n)"
    have "c < nextId d1 \<and> parentNode d' c = Some n"
    proof (cases "n = p")
      case True
      then have "c \<in> set ?X \<or> c \<in> set (L @ R)" using c p(2) by (auto simp: d')
      then show ?thesis
      proof
        assume "c \<in> set ?X" then show ?thesis using X True by (simp add: d')
      next
        assume cK: "c \<in> set (L @ R)"
        then have "c \<notin> set ?X" using disj by blast
        then show ?thesis using K [OF cK] True by (simp add: d')
      qed
    next
      case False
      then have nF: "n \<noteq> F" and cn: "c \<in> set (childNodes d1 n)"
        using c by (auto simp: d' split: if_splits)
      have pc: "c < nextId d1 \<and> parentNode d1 c = Some n" using wf_child [OF wf n cn] .
      then have "c \<notin> set ?X" using X nF by fastforce
      then show ?thesis using pc by (simp add: d')
    qed
    then show "c < nextId d'" "parentNode d' c = Some n" by (simp_all add: d') }
  { fix q assume q: "parentNode d' n = Some q"
    have "q < nextId d1 \<and> n \<in> set (childNodes d' q)"
    proof (cases "n \<in> set ?X")
      case True
      then show ?thesis using q p by (simp add: d')
    next
      case False
      then have pn: "parentNode d1 n = Some q" using q by (simp add: d')
      then have q': "q < nextId d1" "n \<in> set (childNodes d1 q)"
        using wf_parent [OF wf n] by blast+
      have "q \<noteq> F" using q'(2) False by auto
      then show ?thesis using q' LR by (cases "q = p") (auto simp: d')
    qed
    then show "q < nextId d'" "n \<in> set (childNodes d' q)" by (simp_all add: d') }
qed

lemma append_all_no_anchor:
  "append_all F es None d = Inr (a', d') \<Longrightarrow> a' = None"
  by (induction es arbitrary: d) (auto split: sum.splits)

lemma Node_insertBefore_fragment:
  assumes "kind d F = DocumentFragment" "\<not> inclusive_ancestor d F p"
    and "case r of None \<Rightarrow> True | Some x \<Rightarrow> parentNode d x = Some p" "r \<noteq> Some F"
  shows "Node_insertBefore d p F r =
     Inr (d\<lparr>parentNode := (\<lambda>m. if m \<in> set (childNodes d F) then Some p else parentNode d m),
           childNodes := (childNodes d)(F := [], p := splice_before (childNodes d p) r (childNodes d F))\<rparr>)"
  using assms by (auto simp: Node_insertBefore_def Let_def split: option.splits)

lemma createDocumentFragment_fields:
  "fst (createDocumentFragment d) = nextId d"
  "nextId (snd (createDocumentFragment d)) = Suc (nextId d)"
  "parentNode (snd (createDocumentFragment d)) = (parentNode d)(nextId d := None)"
  "childNodes (snd (createDocumentFragment d)) = (childNodes d)(nextId d := [])"
  "kind (snd (createDocumentFragment d)) = (kind d)(nextId d := DocumentFragment)"
  by (simp_all add: createDocumentFragment_def)

lemma each_insertedElm_array:
  "length ns \<le> i + turns
   \<Longrightarrow> each_insertedElm turns F (NodeArray ns) i a d = append_all F (drop i ns) a d"
proof (induction turns arbitrary: i a d)
  case 0
  then show ?case by simp
next
  case (Suc turns)
  show ?case
  proof (cases "i < length ns")
    case True
    have d: "drop i ns = ns ! i # drop (Suc i) ns"
      using True by (simp add: Cons_nth_drop_Suc)
    have "length ns \<le> Suc i + turns" using Suc.prems by simp
    then have IH: "each_insertedElm turns F (NodeArray ns) (Suc i) a' d'
                 = append_all F (drop (Suc i) ns) a' d'" for a' d'
      by (rule Suc.IH)
    show ?thesis using True by (simp add: d Let_def IH cong: sum.case_cong)
  next
    case False
    then show ?thesis by simp
  qed
qed

lemma before_NodeArray_unfold:
  "before d (Some p) preferredAnchor (NodeArray elms) =
     (case append_all (nextId d) elms preferredAnchor (snd (createDocumentFragment d)) of
        Inl e \<Rightarrow> Inl e
      | Inr (anchor, d1) \<Rightarrow>
          Node_insertBefore d1 p (nextId d) (valid_anchor d1 p preferredAnchor anchor))"
  by (simp add: before_def createDocumentFragment_def each_insertedElm_array)

lemma before_NodeArray:
  assumes wf: "wf_dom d" and p: "p < nextId d"
    and elms: "\<forall>e\<in>set elms. e < nextId d \<and> kind d e \<noteq> DocumentFragment
                 \<and> \<not> inclusive_ancestor d e p"
    and anchor: "case preferredAnchor of None \<Rightarrow> True | Some c \<Rightarrow> c \<in> set (childNodes d p)"
  shows "\<exists>d'. before d (Some p) preferredAnchor (NodeArray elms) = Inr d'
      \<and> childNodes d' p =
          (case preferredAnchor of
             None \<Rightarrow> filter (\<lambda>n. n \<notin> set elms) (childNodes d p) @ remdups elms
           | Some c \<Rightarrow>
               filter (\<lambda>n. n \<notin> set elms) (takeWhile (\<lambda>m. m \<noteq> c) (childNodes d p))
               @ remdups elms
               @ filter (\<lambda>n. n \<notin> set elms) (dropWhile (\<lambda>m. m \<noteq> c) (childNodes d p)))
      \<and> distinct (childNodes d' p)
      \<and> (\<forall>e\<in>set elms. parentNode d' e = Some p)
      \<and> wf_dom d'"
proof -
  define F where "F = nextId d"
  define d0 where "d0 = snd (createDocumentFragment d)"
  define S where "S = set elms"
  define K where "K = childNodes d p"
  have cdf: "createDocumentFragment d = (F, d0)"
    by (simp add: F_def d0_def createDocumentFragment_def)
  have d0: "wf_dom d0" "nextId d0 = Suc F" "parentNode d0 = (parentNode d)(F := None)"
      "childNodes d0 = (childNodes d)(F := [])"
      "kind d0 = (kind d)(F := DocumentFragment)"
    using createDocumentFragment_wf [OF wf]
    by (simp_all add: d0_def F_def createDocumentFragment_fields)
  have pF: "p \<noteq> F" using p by (simp add: F_def)
  have pre: "F < nextId d0" "parentNode d0 F = None"
      "\<forall>e\<in>set elms. e < nextId d0 \<and> e \<noteq> F \<and> kind d0 e \<noteq> DocumentFragment"
    using elms by (auto simp: d0 F_def)
  obtain a' d1 where loop: "append_all F elms preferredAnchor d0 = Inr (a', d1)"
    and d1: "wf_dom d1" "nextId d1 = nextId d0" "kind d1 = kind d0"
      "parentNode d1 = (\<lambda>n. if n \<in> set elms then Some F else parentNode d0 n)"
    and kids1: "\<forall>q<nextId d0. childNodes d1 q =
                 (if q = F then filter (\<lambda>n. n \<notin> set elms) (childNodes d0 F) @ remdups elms
                  else filter (\<lambda>n. n \<notin> set elms) (childNodes d0 q))"
    using append_all_fields [OF d0(1) pre, of preferredAnchor] by blast
  have X: "childNodes d1 F = remdups elms"
    using kids1 pre(1) by (simp add: d0)
  have Kp: "childNodes d1 p = filter (\<lambda>n. n \<notin> set elms) K"
    using kids1 p pF by (simp add: d0 F_def K_def)
  have p1: "p < nextId d1" using p by (simp add: d1 d0 F_def)
  have distK: "distinct (childNodes d1 p)" using wf_distinct [OF d1(1) p1] .
  have parK: "\<forall>x\<in>set (childNodes d1 p). parentNode d1 x = Some p"
    using wf_child [OF d1(1) p1] by blast
  have FnotS: "F \<notin> set elms" using elms by (auto simp: F_def)
  have parF: "parentNode d1 F = None" using FnotS by (simp add: d1 d0)
  have noanc: "\<not> inclusive_ancestor d1 F p"
  proof -
    have bound: "\<forall>m<F. \<forall>q. parentNode d m = Some q \<longrightarrow> q < F"
      using wf_parent [OF wf] by (auto simp: F_def)
    have par1: "parentNode d1 = (\<lambda>m. if m \<in> set elms then Some F else ((parentNode d)(F := None)) m)"
      by (simp add: d1 d0 cong: if_cong)
    have "\<forall>e\<in>set elms. \<not> ancestor_walk F d e p"
      using elms by (simp add: inclusive_ancestor_def F_def)
    then have "\<not> ancestor_walk (Suc F) d1 F p"
      using fragment_not_ancestor [OF bound order_refl par1, of p F] p by (simp add: F_def)
    then show ?thesis by (simp add: inclusive_ancestor_def d1 d0)
  qed
  have tyF: "kind d1 F = DocumentFragment" by (simp add: d1 d0)
  define r where "r = valid_anchor d1 p preferredAnchor a'"
  define L where "L = (case preferredAnchor of None \<Rightarrow> filter (\<lambda>n. n \<notin> set elms) K
       | Some c \<Rightarrow> filter (\<lambda>n. n \<notin> set elms) (takeWhile (\<lambda>m. m \<noteq> c) K))"
  define R where "R = (case preferredAnchor of None \<Rightarrow> []
       | Some c \<Rightarrow> filter (\<lambda>n. n \<notin> set elms) (dropWhile (\<lambda>m. m \<noteq> c) K))"
  have LR: "childNodes d1 p = L @ R"
    unfolding Kp L_def R_def
    by (cases preferredAnchor) (simp_all add: filter_append [symmetric] del: filter_append)
  have ref: "splice_before (L @ R) r (remdups elms) = L @ remdups elms @ R
       \<and> (case r of None \<Rightarrow> True | Some x \<Rightarrow> x \<in> set (L @ R))"
  proof (cases preferredAnchor)
    case None
    then have "a' = None" using loop append_all_no_anchor by blast
    then show ?thesis using None by (simp add: r_def valid_anchor_def splice_before_def R_def)
  next
    case (Some c)
    have cK: "c \<in> set K" using anchor Some by (simp add: K_def)
    define L0 where "L0 = takeWhile (\<lambda>m. m \<noteq> c) K"
    define R0 where "R0 = dropWhile (\<lambda>m. m \<noteq> c) K"
    have R0: "R0 \<noteq> []" "hd R0 = c"
      using cK hd_dropWhile [of "\<lambda>m. m \<noteq> c" K] by (auto simp: R0_def)
    have rel0: "anchor_rel c preferredAnchor L0 R0"
      using R0 Some by (simp add: anchor_rel_def)
    have k0: "childNodes d0 p = L0 @ R0" using pF by (simp add: d0 L0_def R0_def K_def)
    have p0: "p < nextId d0" using p by (simp add: d0 F_def)
    have "anchor_rel c a' (filter (\<lambda>n. n \<notin> set elms) L0) (filter (\<lambda>n. n \<notin> set elms) R0)"
      using d0(1) pre p0 pF k0 rel0 loop by (rule append_all_anchor)
    then have rel: "anchor_rel c a' L R" using Some by (simp add: L_def R_def L0_def R0_def)
    show ?thesis
      unfolding r_def Some
      using distK parK rel LR anchor_final [of L R d1 p c a' "remdups elms"] by simp
  qed
  have rpar: "case r of None \<Rightarrow> True | Some x \<Rightarrow> parentNode d1 x = Some p"
    using ref parK LR by (auto split: option.splits)
  have rF: "r \<noteq> Some F" using rpar parF by (auto split: option.splits)
  define d' where "d' = d1\<lparr>parentNode := (\<lambda>m. if m \<in> set (childNodes d1 F) then Some p else parentNode d1 m),
           childNodes := (childNodes d1)(F := [], p := splice_before (childNodes d1 p) r (childNodes d1 F))\<rparr>"
  have ins: "Node_insertBefore d1 p F r = Inr d'"
    unfolding d'_def using tyF noanc rpar rF by (rule Node_insertBefore_fragment)
  have run: "before d (Some p) preferredAnchor (NodeArray elms) = Inr d'"
    using loop ins by (simp add: before_NodeArray_unfold r_def F_def [symmetric] d0_def [symmetric])
  have kids': "childNodes d' p = L @ remdups elms @ R"
    using ref by (simp add: d'_def X LR)
  have wf': "wf_dom d'"
  proof (rule wf_insert_fragment [OF d1(1) _ p1 pF LR])
    show "F < nextId d1" by (simp add: d1 d0)
    show "nextId d' = nextId d1" by (simp add: d'_def)
    show "parentNode d' = (\<lambda>m. if m \<in> set (childNodes d1 F) then Some p else parentNode d1 m)"
      by (simp add: d'_def)
    show "childNodes d' = (childNodes d1)(F := [], p := L @ childNodes d1 F @ R)"
      using ref by (simp add: d'_def X LR)
  qed
  have "set L \<inter> set elms = {}" "set R \<inter> set elms = {}"
    by (auto simp: L_def R_def split: option.splits)
  moreover have "distinct (L @ R)" using distK LR by simp
  ultimately have dist': "distinct (childNodes d' p)"
    unfolding kids' by auto
  have par': "\<forall>e\<in>set elms. parentNode d' e = Some p"
    by (simp add: d'_def X)
  show ?thesis
    using run kids' dist' par' wf'
    by (cases preferredAnchor) (simp_all add: L_def R_def K_def)
qed
lemma removeElement_remove_node: "removeElement d e = Inr (remove_node d e)"
  by (simp add: removeElement_def Node_removeChild_def remove_node_def split: option.splits)

lemma items_Single_None: "(items d (Single n) = None) = no_length (kind d n)"
  by (cases "kind d n") simp_all

lemma removeElements_nested_node:
  "no_length (kind d n)
   \<Longrightarrow> removeElements_nested (Suc depth) d (Single n) = Inr (remove_node d n)"
  by (simp add: items_Single_None [symmetric] removeElement_remove_node)

lemma removeElements_Single:
  "no_length (kind d n) \<Longrightarrow> removeElements d (Single n) = Inr (remove_node d n)"
  by (simp add: removeElements_def numeral_3_eq_3 removeElements_nested_node
      del: removeElements_nested.simps)

lemma each_call_nodes:
  assumes "\<forall>n\<in>set ns. no_length (kind d n)"
  shows "\<exists>d'. each_call (\<lambda>d' e. removeElements_nested (Suc depth) d' (as_argument e)) d
                 (map Some ns) = Inr d'
        \<and> nextId d' = nextId d \<and> kind d' = kind d
        \<and> parentNode d' = (\<lambda>n. if n \<in> set ns then None else parentNode d n)
        \<and> (wf_dom d \<longrightarrow> wf_dom d'
             \<and> (\<forall>q<nextId d. childNodes d' q = filter (\<lambda>n. n \<notin> set ns) (childNodes d q)))"
  using assms
proof (induction ns arbitrary: d)
  case Nil
  then show ?case by simp
next
  case (Cons e ns)
  let ?d1 = "remove_node d e"
  let ?f = "\<lambda>d' e. removeElements_nested (Suc depth) d' (as_argument e)"
  have step: "?f d (Some e) = Inr ?d1"
    using Cons.prems by (simp add: as_argument_def removeElements_nested_node del: removeElements_nested.simps)
  have "\<forall>n\<in>set ns. no_length (kind ?d1 n)"
    using Cons.prems by (simp add: remove_node_fields)
  from Cons.IH [OF this] obtain d' where d': "each_call ?f ?d1 (map Some ns) = Inr d'"
      "nextId d' = nextId ?d1" "kind d' = kind ?d1"
      "parentNode d' = (\<lambda>n. if n \<in> set ns then None else parentNode ?d1 n)"
      "wf_dom ?d1 \<longrightarrow> wf_dom d'
             \<and> (\<forall>q<nextId ?d1. childNodes d' q = filter (\<lambda>n. n \<notin> set ns) (childNodes ?d1 q))"
    by blast
  have run: "each_call ?f d (map Some (e # ns)) = Inr d'"
    using d'(1) step by simp
  have par: "parentNode d' = (\<lambda>n. if n \<in> set (e # ns) then None else parentNode d n)"
    by (auto simp: d'(4) remove_node_fields)
  have kids: "wf_dom d \<longrightarrow> wf_dom d'
             \<and> (\<forall>q<nextId d. childNodes d' q = filter (\<lambda>n. n \<notin> set (e # ns)) (childNodes d q))"
  proof
    assume wf: "wf_dom d"
    then have wf1: "wf_dom ?d1" by (rule wf_remove_node)
    have "\<forall>q<nextId d. childNodes d' q = filter (\<lambda>n. n \<notin> set (e # ns)) (childNodes d q)"
      using d'(5) wf1 remove_node_childNodes [OF wf]
      by (simp add: remove_node_fields removeAll_as_filter filter_notin_Cons)
    then show "wf_dom d'
             \<and> (\<forall>q<nextId d. childNodes d' q = filter (\<lambda>n. n \<notin> set (e # ns)) (childNodes d q))"
      using d'(5) wf1 by blast
  qed
  show ?case using run par kids d'(2,3) by (simp add: remove_node_fields)
qed

lemma removeElements_NodeArray:
  assumes "\<forall>n\<in>set ns. no_length (kind d n)"
  shows "\<exists>d'. removeElements d (NodeArray ns) = Inr d'
        \<and> nextId d' = nextId d \<and> kind d' = kind d
        \<and> parentNode d' = (\<lambda>n. if n \<in> set ns then None else parentNode d n)
        \<and> (wf_dom d \<longrightarrow> wf_dom d'
             \<and> (\<forall>q<nextId d. childNodes d' q = filter (\<lambda>n. n \<notin> set ns) (childNodes d q)))"
  using each_call_nodes [OF assms, of 1]
  by (simp add: removeElements_def numeral_3_eq_3)

text \<open>
  The depth \<open>removeElements\<close> starts with is never used up: a greater one gives the same
  result. At the innermost level a call is on \<^verbatim>\<open>undefined\<close> or on an indexed item of a
  node, an element without a \<^verbatim>\<open>length\<close>, and takes the branch without recursion.
\<close>

lemma each_call_items:
  assumes "\<forall>e\<in>set array. case e of None \<Rightarrow> True | Some c \<Rightarrow> kind d c = Element"
  shows "each_call (\<lambda>d' e. removeElements_nested (Suc depth) d' (as_argument e)) d array
       = each_call (\<lambda>d' e. removeElements_nested (Suc 0) d' (as_argument e)) d array"
  using assms
proof (induction array arbitrary: d)
  case Nil
  then show ?case by simp
next
  case (Cons e array)
  show ?case
  proof (cases e)
    case None
    then show ?thesis using Cons by (simp add: as_argument_def)
  next
    case (Some c)
    then have c: "kind d c = Element" using Cons.prems by simp
    have step: "removeElements_nested (Suc k) d (as_argument e) = Inr (remove_node d c)" for k
      using c Some by (simp add: as_argument_def removeElement_remove_node)
    have "\<forall>e\<in>set array. case e of None \<Rightarrow> True | Some c' \<Rightarrow> kind (remove_node d c) c' = Element"
      using Cons.prems by (auto simp: remove_node_fields split: option.splits)
    from Cons.IH [OF this] show ?thesis
      by (simp add: step del: removeElements_nested.simps)
  qed
qed

lemma items_of_node:
  "items d (Single n) = Some array
   \<Longrightarrow> \<forall>e\<in>set array. case e of None \<Rightarrow> True | Some c \<Rightarrow> kind d c = Element"
  by (cases "kind d n") auto

lemma removeElements_nested_two:
  "removeElements_nested (Suc (Suc depth)) d (as_argument e)
     = removeElements_nested (Suc (Suc 0)) d (as_argument e)"
proof (cases e)
  case None
  then show ?thesis by (simp add: as_argument_def)
next
  case (Some n)
  show ?thesis
  proof (cases "items d (Single n)")
    case None
    then show ?thesis using Some by (simp add: as_argument_def)
  next
    case (Some array)
    have "each_call (\<lambda>d' e. removeElements_nested (Suc depth) d' (as_argument e)) d array
       = each_call (\<lambda>d' e. removeElements_nested (Suc 0) d' (as_argument e)) d array"
      using items_of_node [OF Some] by (rule each_call_items)
    then show ?thesis using Some \<open>e = Some n\<close>
      by (simp add: as_argument_def del: items.simps)
  qed
qed

lemma removeElements_depth_enough:
  "removeElements_nested (Suc (Suc (Suc depth))) d nodes = removeElements d nodes"
proof -
  have eq: "(\<lambda>d' e. removeElements_nested (Suc (Suc depth)) d' (as_argument e))
      = (\<lambda>d' e. removeElements_nested (Suc (Suc 0)) d' (as_argument e))"
    by (intro ext) (rule removeElements_nested_two)
  have "removeElements_nested (Suc (Suc (Suc depth))) d nodes =
     (case items d nodes of
        Some array \<Rightarrow>
          each_call (\<lambda>d' e. removeElements_nested (Suc (Suc depth)) d' (as_argument e)) d array
      | None \<Rightarrow> (case nodes of Single n \<Rightarrow> removeElement d n | _ \<Rightarrow> Inr d))"
    by (rule removeElements_nested.simps(2))
  also have "\<dots> =
     (case items d nodes of
        Some array \<Rightarrow>
          each_call (\<lambda>d' e. removeElements_nested (Suc (Suc 0)) d' (as_argument e)) d array
      | None \<Rightarrow> (case nodes of Single n \<Rightarrow> removeElement d n | _ \<Rightarrow> Inr d))"
    by (simp only: eq)
  also have "\<dots> = removeElements_nested (Suc (Suc (Suc 0))) d nodes"
    by (rule removeElements_nested.simps(2) [symmetric])
  finally show ?thesis
    by (simp only: removeElements_def numeral_3_eq_3)
qed

subsection \<open>Insertion before an anchor\<close>

lemma example_document_wf: "wf_dom example_document"
  by (simp add: wf_dom_def example_document_def list_all_iff)

lemma example_document_no_ancestor:
  "\<not> inclusive_ancestor example_document 3 0" "\<not> inclusive_ancestor example_document 4 0"
  "\<not> inclusive_ancestor example_document 1 0" "\<not> inclusive_ancestor example_document 5 0"
  by (simp_all add: inclusive_ancestor_def example_document_def eval_nat_numeral)

text \<open>
  Claim C8, amended. For a parent that exists and is an element or a fragment, and an
  array of elements, text nodes and comments (a collection whose elements stay the same
  while nodes are moved), \<open>before\<close> does not throw and leaves all given nodes as
  children of the parent, in their input order, immediately before the anchor: the
  children before the anchor, the given nodes, then the anchor and what follows it. A
  given node that was already a child of the parent is taken out of its old place, so
  nothing is duplicated, also when the anchor itself is among the given nodes (a node
  given twice stays at its last position: that is \<open>remdups\<close>). The inputs are those
  the DOM accepts: the anchor is null or a child of the parent, and no given node is the
  parent or a node that contains the parent.
\<close>

theorem before_inserts_in_order:
  assumes "wf_dom d" and "p < nextId d" and "can_have_children (kind d p)"
    and "\<forall>e\<in>set insertedElms. e < nextId d \<and> kind d e \<noteq> DocumentFragment
            \<and> \<not> inclusive_ancestor d e p"
    and "case preferredAnchor of None \<Rightarrow> True | Some c \<Rightarrow> c \<in> set (childNodes d p)"
  shows "\<exists>d'. before d (Some p) preferredAnchor (NodeArray insertedElms) = Inr d'
      \<and> childNodes d' p =
          (case preferredAnchor of
             None \<Rightarrow> filter (\<lambda>n. n \<notin> set insertedElms) (childNodes d p) @ remdups insertedElms
           | Some c \<Rightarrow>
               filter (\<lambda>n. n \<notin> set insertedElms) (takeWhile (\<lambda>m. m \<noteq> c) (childNodes d p))
               @ remdups insertedElms
               @ filter (\<lambda>n. n \<notin> set insertedElms) (dropWhile (\<lambda>m. m \<noteq> c) (childNodes d p)))
      \<and> distinct (childNodes d' p)
      \<and> (\<forall>e\<in>set insertedElms. parentNode d' e = Some p)
      \<and> wf_dom d'"
  using assms(1,2,4,5) by (rule before_NodeArray)

theorem before_inserts_in_order_witness:
  "(\<exists>d'. before example_document (Some 0) (Some 1) (NodeArray [3, 4]) = Inr d'
         \<and> childNodes d' 0 = [3, 4, 1, 2])
   \<and> (\<exists>d'. before example_document (Some 0) (Some 1) (NodeArray [1, 5]) = Inr d'
         \<and> childNodes d' 0 = [1, 5, 2] \<and> distinct (childNodes d' 0))"
proof -
  have k: "childNodes example_document 0 = [1, 2]" "nextId example_document = 6"
    "kind example_document = (\<lambda>_. Element)"
    by (simp_all add: example_document_def)
  have "\<exists>d'. before example_document (Some 0) (Some 1) (NodeArray [3, 4]) = Inr d'
         \<and> childNodes d' 0 = [3, 4, 1, 2]"
    using before_inserts_in_order [of example_document 0 "[3, 4]" "Some 1"]
      example_document_wf example_document_no_ancestor
    by (simp add: k) blast
  moreover have "\<exists>d'. before example_document (Some 0) (Some 1) (NodeArray [1, 5]) = Inr d'
         \<and> childNodes d' 0 = [1, 5, 2] \<and> distinct (childNodes d' 0)"
    using before_inserts_in_order [of example_document 0 "[1, 5]" "Some 1"]
      example_document_wf example_document_no_ancestor
    by (simp add: k) blast
  ultimately show ?thesis by blast
qed

text \<open>
  Claim C8 as stated, for every parent and every array-like collection, fails in five
  ways. An exception of the DOM goes through: inserting the array \<open>[0]\<close> under the node
  1, a child of 0, raises HierarchyRequestError, and an anchor that is not a child of
  the parent (the detached element 3 under the parent 0) raises NotFoundError. A
  fragment given in the array is emptied and not inserted: of the array \<open>[1]\<close> of the
  third document, the parent 0 receives the element 2 that the fragment 1 held, and the
  fragment itself stays without a parent. A live list loses every other node: when the
  children \<open>[1, 2]\<close> of the element 0 are given as the live list of its child nodes, to
  be appended to the element 3, only the node 1 arrives and the node 2 stays where it
  was, because the list shrinks while the loop counts up. And a node with a numeric
  \<^verbatim>\<open>length\<close> is array-like: given the text node 1 of the second document, the loop
  calls \<^verbatim>\<open>appendChild\<close> with \<^verbatim>\<open>undefined\<close>, which raises a TypeError.
\<close>

theorem before_array_like_counterexample:
  "map_sum id (\<lambda>d. ()) (before example_document (Some 1) None (NodeArray [0]))
     = Inl HierarchyRequestError
   \<and> map_sum id (\<lambda>d. ()) (before example_document (Some 0) (Some 3) (NodeArray [4]))
     = Inl NotFoundError
   \<and> kind example_fragment_document 1 = DocumentFragment
   \<and> map_sum id (\<lambda>d. (childNodes d 0, parentNode d 1))
        (before example_fragment_document (Some 0) None (NodeArray [1])) = Inr ([2], None)
   \<and> isArrayLike example_document (NodeList 0)
   \<and> items example_document (NodeList 0) = Some [Some 1, Some 2]
   \<and> map_sum id (\<lambda>d. (childNodes d 3, childNodes d 0))
        (before example_document (Some 3) None (NodeList 0)) = Inr ([1], [2])
   \<and> isArrayLike example_select_document (Single 1)
   \<and> map_sum id (\<lambda>d. ()) (before example_select_document (Some 2) None (Single 1))
     = Inl TypeError"
  by code_simp

subsection \<open>Degenerate inputs\<close>

lemma before_null_parent: "before d None preferredAnchor insertedElms = Inr d"
  by (simp add: before_def)

lemma null_reference_is_no_op:
  "before d None preferredAnchor insertedElms = Inr d
   \<and> appendChildren d None insertedElms = Inr d
   \<and> prependChildren d None insertedElms = Inr d
   \<and> insertBefore d None insertedElms = Inr d
   \<and> insertAfter d None insertedElms = Inr d"
  by (simp add: before_null_parent appendChildren_def prependChildren_def insertBefore_def
      insertAfter_def parent_def)

lemma removeElements_unparented:
  "no_length (kind d n) \<Longrightarrow> parentNode d n = None \<Longrightarrow> removeElements d (Single n) = Inr d"
  by (simp add: removeElements_Single remove_node_def)


text \<open>
  Claim C9. The documentation of \<open>removeElements\<close> says that it removes the given nodes
  from their parent, and the claim that it detaches the parented nodes of a collection
  and is a no-op on a node without a parent. The code tests \<^verbatim>\<open>isArrayLike\<close> first, and
  that test holds of every node with a numeric \<^verbatim>\<open>length\<close>. So the text node 1, a child
  of the element 0, stays a child of 0, alone or in an array with the element 2 (which
  is detached); and the \<^verbatim>\<open>select\<close> element 3, which has no parent, loses its two
  options.
\<close>

theorem removeElements_treats_node_as_array:
  "parentNode example_select_document 1 = Some 0
   \<and> isArrayLike example_select_document (Single 1)
   \<and> map_sum id (\<lambda>d. (parentNode d 1, childNodes d 0))
        (removeElements example_select_document (Single 1)) = Inr (Some 0, [1, 2])
   \<and> map_sum id (\<lambda>d. (parentNode d 1, parentNode d 2, childNodes d 0))
        (removeElements example_select_document (NodeArray [1, 2])) = Inr (Some 0, None, [1])
   \<and> parentNode example_select_document 3 = None
   \<and> childNodes example_select_document 3 = [4, 5]
   \<and> isArrayLike example_select_document (Single 3)
   \<and> map_sum id (\<lambda>d. (childNodes d 3, parentNode d 4, parentNode d 5))
        (removeElements example_select_document (Single 3)) = Inr ([], None, None)"
  by code_simp

section \<open>Properties of the environment\<close>

lemma forEach_listener_callbacks:
  "forEach_listener ls e = map (\<lambda>l. Called l e) (callbacks ls)"
  by (induction ls e rule: forEach_listener.induct) simp_all

lemma set_callbacks: "set (callbacks ls) = {l. Some l \<in> set ls}"
  by (induction ls rule: callbacks.induct) auto

lemma appendChildren_Single:
  assumes "kind d e = Element" "\<not> inclusive_ancestor d e b"
  shows "appendChildren d (Some b) (Single e) =
     Inr ((remove_node d e)\<lparr>parentNode := (parentNode (remove_node d e))(e := Some b),
        childNodes := (childNodes (remove_node d e))
           (b := childNodes (remove_node d e) b @ [e])\<rparr>)"
  using assms
  by (simp add: appendChildren_def before_def valid_anchor_def Node_insertBefore_def
      splice_before_def Let_def)

lemma remove_node_unparented: "parentNode d e = None \<Longrightarrow> remove_node d e = d"
  by (simp add: remove_node_def)

lemma probe_cycle:
  assumes "probe_ready d c"
  shows "appendChildren d (Some (cl_body c)) (Single (cl_envElm c)) = Inr (measuring_document d c)
       \<and> nativeScrollbarSize d (cl_body c) (cl_envElm c) lay
           = Inr (probed_size lay d c, measuring_document d c)
       \<and> removeElements (measuring_document d c) (Single (cl_envElm c)) = Inr d"
proof -
  define e where "e = cl_envElm c"
  define b where "b = cl_body c"
  have wf: "wf_dom d" and b: "b < nextId d" and pe: "parentNode d e = None"
    and ty: "kind d e = Element" and anc: "\<not> inclusive_ancestor d e b"
    using assms by (simp_all add: probe_ready_def e_def b_def)
  define d1 where "d1 = measuring_document d c"
  have d1: "d1 = d\<lparr>parentNode := (parentNode d)(e := Some b),
        childNodes := (childNodes d)(b := childNodes d b @ [e])\<rparr>"
    by (simp add: d1_def measuring_document_def e_def b_def)
  have app: "appendChildren d (Some b) (Single e) = Inr d1"
    using appendChildren_Single [OF ty anc] pe by (simp add: remove_node_unparented d1)
  have m: "nativeScrollbarSize d b e lay = Inr (probed_size lay d c, d1)"
    unfolding nativeScrollbarSize_def app
    by (simp add: measured_size_def probed_size_def Let_def d1_def e_def)
  have notin: "e \<notin> set (childNodes d b)"
    using wf b pe by (intro wf_not_child) simp_all
  have "remove_node d1 e = d"
    using pe notin by (simp add: remove_node_def d1 fun_upd_idem)
  moreover have "no_length (kind d1 e)" using ty by (simp add: d1)
  ultimately have "removeElements d1 (Single e) = Inr d"
    by (simp add: removeElements_Single)
  then show ?thesis using app m unfolding e_def b_def d1_def by blast
qed

lemma isZoom_deltas:
  "isZoom s dpr sizeNew dprNew \<Longrightarrow> 2 < \<bar>wh_w sizeNew - wh_w s\<bar> \<and> 2 < \<bar>wh_h sizeNew - wh_h s\<bar>"
  by (simp add: isZoom_def Let_def)

lemma onResize_not_registered: "resizeHandler pg = None \<Longrightarrow> onResize ev pg = Inr pg"
  by (simp add: onResize_def)

lemma onResize_no_listener: "env_onChangedListener (self pg) = [] \<Longrightarrow> onResize ev pg = Inr pg"
  by (simp add: onResize_def split: option.splits)

lemma onResize_same_size:
  "wh_w (ev_windowSize ev) = wh_w (cl_size c) \<Longrightarrow> wh_h (ev_windowSize ev) = wh_h (cl_size c)
   \<Longrightarrow> resizeHandler pg = Some c \<Longrightarrow> onResize ev pg = Inr pg"
  by (simp add: onResize_def Let_def)

lemma onResize_no_zoom:
  assumes "resizeHandler pg = Some c" and "env_onChangedListener (self pg) \<noteq> []"
    and "wh_w (ev_windowSize ev) \<noteq> wh_w (cl_size c) \<or> wh_h (ev_windowSize ev) \<noteq> wh_h (cl_size c)"
    and "\<not> isZoom (cl_size c) (cl_dpr c) (ev_windowSize ev) (windowDPR (ev_screen ev))"
  shows "onResize ev pg =
     Inr (pg\<lparr>resizeHandler :=
              Some (c\<lparr>cl_size := ev_windowSize ev, cl_dpr := windowDPR (ev_screen ev)\<rparr>)\<rparr>)"
  using assms by (auto simp: onResize_def Let_def)

lemma onResize_zoom:
  assumes h: "resizeHandler pg = Some c" and ls: "env_onChangedListener (self pg) \<noteq> []"
    and z: "isZoom (cl_size c) (cl_dpr c) (ev_windowSize ev) (windowDPR (ev_screen ev))"
    and ready: "probe_ready (document pg) c"
  shows "onResize ev pg =
     Inr (pg\<lparr>self := (self pg)\<lparr>env_nativeScrollbarSize :=
                                  probed_size (ev_layout ev) (document pg) c\<rparr>,
            resizeHandler :=
              Some (c\<lparr>cl_size := ev_windowSize ev, cl_dpr := windowDPR (ev_screen ev)\<rparr>),
            effects := effects pg @ Measured (probed_size (ev_layout ev) (document pg) c)
              # (if xy_x (env_nativeScrollbarSize (self pg))
                      \<noteq> xy_x (probed_size (ev_layout ev) (document pg) c)
                    \<or> xy_y (env_nativeScrollbarSize (self pg))
                      \<noteq> xy_y (probed_size (ev_layout ev) (document pg) c)
                 then map (\<lambda>l. Called l
                         ((self pg)\<lparr>env_nativeScrollbarSize :=
                                      probed_size (ev_layout ev) (document pg) c\<rparr>))
                        (callbacks (env_onChangedListener (self pg)))
                 else [])\<rparr>)"
proof -
  define d1 where "d1 = measuring_document (document pg) c"
  have m: "nativeScrollbarSize (document pg) (cl_body c) (cl_envElm c) (ev_layout ev)
          = Inr (probed_size (ev_layout ev) (document pg) c, d1)"
    and r: "removeElements d1 (Single (cl_envElm c)) = Inr (document pg)"
    using probe_cycle [OF ready, of "ev_layout ev"] by (simp_all add: d1_def)
  have nz: "wh_w (ev_windowSize ev) \<noteq> wh_w (cl_size c)"
    using isZoom_deltas [OF z] by auto
  show ?thesis
    unfolding onResize_def Let_def
    using h ls z nz m r
    by (simp add: forEach_listener_callbacks)
qed

lemma example_page_simps:
  "resizeHandler example_page
     = Some \<lparr>cl_body = 0, cl_envElm = 3, cl_size = \<lparr>wh_w = 1000, wh_h = 800\<rparr>, cl_dpr = 1\<rparr>"
  "env_onChangedListener (self example_page) = [Some 1]"
  "env_nativeScrollbarSize (self example_page) = \<lparr>xy_x = 17, xy_y = 17\<rparr>"
  "document example_page = example_document"
  "effects example_page = []"
  by (simp_all add: example_page_def)

lemma example_page_ready:
  "probe_ready example_document
     \<lparr>cl_body = 0, cl_envElm = 3, cl_size = \<lparr>wh_w = 1000, wh_h = 800\<rparr>, cl_dpr = 1\<rparr>"
  using example_document_wf example_document_no_ancestor(1)
  by (simp add: probe_ready_def example_document_def)

lemma example_event_simps:
  "ev_windowSize example_zoom = \<lparr>wh_w = 500, wh_h = 400\<rparr>"
  "windowDPR (ev_screen example_zoom) = 2"
  "probed_size (ev_layout example_zoom) example_document
     \<lparr>cl_body = 0, cl_envElm = 3, cl_size = \<lparr>wh_w = 1000, wh_h = 800\<rparr>, cl_dpr = 1\<rparr>
     = \<lparr>xy_x = 0, xy_y = 15\<rparr>"
  "ev_windowSize example_same_size = \<lparr>wh_w = 1000, wh_h = 800\<rparr>"
  "windowDPR (ev_screen example_same_size) = 2"
  "ev_windowSize example_resize = \<lparr>wh_w = 900, wh_h = 800\<rparr>"
  "windowDPR (ev_screen example_resize) = 1"
  by (simp_all add: example_zoom_def example_same_size_def example_resize_def windowDPR_def
      or_else_def measured_size_def probed_size_def measuring_document_def boxes_def)

lemma deltaAbsRatio_examples:
  "deltaAbsRatio 500 1000 = Fin 50" "deltaAbsRatio 400 800 = Fin 50"
  "deltaAbsRatio 416 800 = Fin 52" "deltaAbsRatio 900 1000 = Fin 90"
  "deltaAbsRatio 800 800 = Fin 100"
  by code_simp+

lemma example_isZoom:
  "isZoom \<lparr>wh_w = 1000, wh_h = 800\<rparr> 1 \<lparr>wh_w = 500, wh_h = 400\<rparr> 2"
  by code_simp

text \<open>
  Claim C5. A resize event that arrives while the listener set is empty does nothing:
  the handler returns the page as it was, so the facts, the document (no measurement
  element goes in), the effects (no measurement, no call) and the recorded window size
  and device pixel ratio are all unchanged.
\<close>

theorem no_listener_no_work:
  "env_onChangedListener (self pg) = [] \<Longrightarrow> onResize ev pg = Inr pg"
  by (rule onResize_no_listener)

theorem no_listener_no_work_witness:
  "env_onChangedListener (self (example_page\<lparr>self := removeListener (Some 1) (self example_page)\<rparr>)) = []
   \<and> onResize example_zoom (example_page\<lparr>self := removeListener (Some 1) (self example_page)\<rparr>)
       = Inr (example_page\<lparr>self := removeListener (Some 1) (self example_page)\<rparr>)"
  using no_listener_no_work
    [of "example_page\<lparr>self := removeListener (Some 1) (self example_page)\<rparr>" example_zoom]
  by (simp add: removeListener_def example_page_simps)

text \<open>
  Claim C10. With a listener registered, an event whose window size equals the recorded
  one on both axes (both deltas 0) ends the handler before the zoom test: the page is
  returned as it was, so nothing is measured, no listener is called, and the recorded
  device pixel ratio stays, whatever the new one is.
\<close>

theorem unchanged_size_returns_early:
  assumes "resizeHandler pg = Some c" and "env_onChangedListener (self pg) \<noteq> []"
    and "wh_w (ev_windowSize ev) - wh_w (cl_size c) = 0"
    and "wh_h (ev_windowSize ev) - wh_h (cl_size c) = 0"
  shows "onResize ev pg = Inr pg"
  using assms by (simp add: onResize_same_size)

theorem unchanged_size_returns_early_witness:
  "windowDPR (ev_screen example_same_size) = 2
   \<and> map_sum id resizeHandler (onResize example_same_size example_page)
       = Inr (Some \<lparr>cl_body = 0, cl_envElm = 3, cl_size = \<lparr>wh_w = 1000, wh_h = 800\<rparr>, cl_dpr = 1\<rparr>)
   \<and> map_sum id effects (onResize example_same_size example_page) = Inr []"
  using unchanged_size_returns_early [of example_page _ example_same_size]
  by (simp add: example_page_simps example_event_simps)

lemma example_not_isZoom:
  "\<not> isZoom \<lparr>wh_w = 1000, wh_h = 800\<rparr> 1 \<lparr>wh_w = 500, wh_h = 416\<rparr> 2"
  "\<not> isZoom \<lparr>wh_w = 1000, wh_h = 800\<rparr> 1 \<lparr>wh_w = 900, wh_h = 800\<rparr> 1"
  by code_simp+

text \<open>
  Claim C6, amended. For a resize event that the registered handler processes with at
  least one listener and a window size that differs from the recorded one on at least
  one axis, the recorded window size and device pixel ratio become those of the event,
  whether or not the event is classified as a zoom.
\<close>

theorem baseline_updated_when_handled:
  assumes "resizeHandler pg = Some c" and "env_onChangedListener (self pg) \<noteq> []"
    and "wh_w (ev_windowSize ev) \<noteq> wh_w (cl_size c) \<or> wh_h (ev_windowSize ev) \<noteq> wh_h (cl_size c)"
    and "probe_ready (document pg) c"
  shows "\<exists>pg'. onResize ev pg = Inr pg'
           \<and> resizeHandler pg'
               = Some (c\<lparr>cl_size := ev_windowSize ev, cl_dpr := windowDPR (ev_screen ev)\<rparr>)"
proof (cases "isZoom (cl_size c) (cl_dpr c) (ev_windowSize ev) (windowDPR (ev_screen ev))")
  case True
  show ?thesis using onResize_zoom [OF assms(1,2) True assms(4)] by simp
next
  case False
  show ?thesis using onResize_no_zoom [OF assms(1,2,3) False] by simp
qed

theorem baseline_updated_when_handled_witness:
  "map_sum id resizeHandler (onResize example_resize example_page)
     = Inr (Some \<lparr>cl_body = 0, cl_envElm = 3, cl_size = \<lparr>wh_w = 900, wh_h = 800\<rparr>, cl_dpr = 1\<rparr>)
   \<and> map_sum id resizeHandler (onResize example_zoom example_page)
     = Inr (Some \<lparr>cl_body = 0, cl_envElm = 3, cl_size = \<lparr>wh_w = 500, wh_h = 400\<rparr>, cl_dpr = 2\<rparr>)"
proof -
  have "map_sum id resizeHandler (onResize example_resize example_page)
     = Inr (Some \<lparr>cl_body = 0, cl_envElm = 3, cl_size = \<lparr>wh_w = 900, wh_h = 800\<rparr>, cl_dpr = 1\<rparr>)"
    using baseline_updated_when_handled [of example_page _ example_resize] example_page_ready
    by (auto simp: example_page_simps example_event_simps)
  moreover have "map_sum id resizeHandler (onResize example_zoom example_page)
     = Inr (Some \<lparr>cl_body = 0, cl_envElm = 3, cl_size = \<lparr>wh_w = 500, wh_h = 400\<rparr>, cl_dpr = 2\<rparr>)"
    using baseline_updated_when_handled [of example_page _ example_zoom] example_page_ready
    by (auto simp: example_page_simps example_event_simps)
  ultimately show ?thesis by simp
qed

text \<open>
  Claim C6 as stated fails: with no listener registered the zoom event leaves the
  recorded window size at 1000 by 800, and an event with an unchanged window size leaves
  the recorded device pixel ratio at 1 although the new ratio is 2.
\<close>

theorem baseline_not_updated_counterexample:
  "map_sum id resizeHandler
      (onResize example_zoom (example_page\<lparr>self := removeListener (Some 1) (self example_page)\<rparr>))
     = Inr (Some \<lparr>cl_body = 0, cl_envElm = 3, cl_size = \<lparr>wh_w = 1000, wh_h = 800\<rparr>, cl_dpr = 1\<rparr>)
   \<and> ev_windowSize example_zoom = \<lparr>wh_w = 500, wh_h = 400\<rparr>
   \<and> map_sum id resizeHandler (onResize example_same_size example_page)
     = Inr (Some \<lparr>cl_body = 0, cl_envElm = 3, cl_size = \<lparr>wh_w = 1000, wh_h = 800\<rparr>, cl_dpr = 1\<rparr>)
   \<and> windowDPR (ev_screen example_same_size) = 2"
proof -
  have "onResize example_same_size example_page = Inr example_page"
    by (rule onResize_same_size [where c = "\<lparr>cl_body = 0, cl_envElm = 3,
          cl_size = \<lparr>wh_w = 1000, wh_h = 800\<rparr>, cl_dpr = 1\<rparr>"])
      (simp_all add: example_page_simps example_event_simps)
  then show ?thesis
    by (simp add: onResize_no_listener removeListener_def example_page_simps example_event_simps)
qed

lemma isZoom_unfold:
  "isZoom s dpr sizeNew dprNew =
     (2 < \<bar>wh_w sizeNew - wh_w s\<bar> \<and> 2 < \<bar>wh_h sizeNew - wh_h s\<bar>
      \<and> \<not> diffBiggerThanOne (deltaAbsRatio (wh_w sizeNew) (wh_w s))
                               (deltaAbsRatio (wh_h sizeNew) (wh_h s))
      \<and> dprNew \<noteq> dpr \<and> 0 < dpr)"
  by (simp add: isZoom_def Let_def)

lemma isZoom_iff:
  assumes "window_dimension (wh_w s)" and "window_dimension (wh_w sizeNew)"
  shows "isZoom s dpr sizeNew dprNew =
     (2 < \<bar>wh_w sizeNew - wh_w s\<bar> \<and> 2 < \<bar>wh_h sizeNew - wh_h s\<bar>
      \<and> abs_equal_or_one_apart (deltaAbsRatio (wh_w sizeNew) (wh_w s))
                                (deltaAbsRatio (wh_h sizeNew) (wh_h s))
      \<and> dprNew \<noteq> dpr \<and> 0 < dpr)"
  using diffBiggerThanOne_exact [OF deltaAbsRatio_exact [OF assms(2,1)]]
  by (simp add: isZoom_unfold)

text \<open>
  The quotients are rounded as the machine rounds them. From 440 to 495 the quotient
  \<open>495 / (440 / 100.0)\<close> is \<open>112.49999999999999\<close> in doubles (it would be \<open>112.5\<close>
  in exact arithmetic), so the ratio is 112 and not 113: with the heights going from 400
  to 444 (ratio 111) the event is a zoom, with 456 (ratio 114) it is none.
\<close>

lemma rounded_quotient_examples:
  "js_div (Fin 440) (Fin 100) = Fin (2476979795053773 / 562949953421312)"
  "js_div (Fin 495) (js_div (Fin 440) (Fin 100)) = Fin (7916483719987199 / 70368744177664)"
  "deltaAbsRatio 495 440 = Fin 112" "deltaAbsRatio 444 400 = Fin 111"
  "deltaAbsRatio 456 400 = Fin 114"
  "isZoom \<lparr>wh_w = 440, wh_h = 400\<rparr> 1 \<lparr>wh_w = 495, wh_h = 444\<rparr> 2"
  "\<not> isZoom \<lparr>wh_w = 440, wh_h = 400\<rparr> 1 \<lparr>wh_w = 495, wh_h = 456\<rparr> 2"
  by code_simp+

text \<open>
  Claim C2, amended. For every resize event processed while a listener is registered,
  the handler takes its zoom branch (it measures again) exactly when \<open>isZoom\<close> holds,
  and \<open>isZoom\<close> holds exactly when both pixel deltas exceed 2 in absolute value, the two
  percentage ratios pass the closeness test, and the device pixel ratio differs from the
  recorded one while the recorded one is positive. For window dimensions as the browser
  reports them, the ratios pass the closeness test exactly when their absolute values
  are equal or differ by exactly 1.
\<close>

theorem zoom_classification:
  assumes "resizeHandler pg = Some c" and "env_onChangedListener (self pg) \<noteq> []"
    and "probe_ready (document pg) c"
  shows "\<exists>pg'. onResize ev pg = Inr pg'
     \<and> (effects pg' \<noteq> effects pg)
         = isZoom (cl_size c) (cl_dpr c) (ev_windowSize ev) (windowDPR (ev_screen ev))
     \<and> isZoom (cl_size c) (cl_dpr c) (ev_windowSize ev) (windowDPR (ev_screen ev))
         = (2 < \<bar>wh_w (ev_windowSize ev) - wh_w (cl_size c)\<bar>
            \<and> 2 < \<bar>wh_h (ev_windowSize ev) - wh_h (cl_size c)\<bar>
            \<and> \<not> diffBiggerThanOne
                  (deltaAbsRatio (wh_w (ev_windowSize ev)) (wh_w (cl_size c)))
                  (deltaAbsRatio (wh_h (ev_windowSize ev)) (wh_h (cl_size c)))
            \<and> windowDPR (ev_screen ev) \<noteq> cl_dpr c \<and> 0 < cl_dpr c)
     \<and> (window_dimension (wh_w (cl_size c)) \<and> window_dimension (wh_h (cl_size c))
        \<and> window_dimension (wh_w (ev_windowSize ev))
        \<and> window_dimension (wh_h (ev_windowSize ev)) \<longrightarrow>
          isZoom (cl_size c) (cl_dpr c) (ev_windowSize ev) (windowDPR (ev_screen ev))
           = (2 < \<bar>wh_w (ev_windowSize ev) - wh_w (cl_size c)\<bar>
              \<and> 2 < \<bar>wh_h (ev_windowSize ev) - wh_h (cl_size c)\<bar>
              \<and> abs_equal_or_one_apart
                    (deltaAbsRatio (wh_w (ev_windowSize ev)) (wh_w (cl_size c)))
                    (deltaAbsRatio (wh_h (ev_windowSize ev)) (wh_h (cl_size c)))
              \<and> windowDPR (ev_screen ev) \<noteq> cl_dpr c \<and> 0 < cl_dpr c))"
proof -
  let ?z = "isZoom (cl_size c) (cl_dpr c) (ev_windowSize ev) (windowDPR (ev_screen ev))"
  have run: "\<exists>pg'. onResize ev pg = Inr pg' \<and> (effects pg' \<noteq> effects pg) = ?z"
  proof (cases ?z)
    case True
    show ?thesis using onResize_zoom [OF assms(1,2) True assms(3)] True by simp
  next
    case False
    show ?thesis
    proof (cases "wh_w (ev_windowSize ev) \<noteq> wh_w (cl_size c)
                  \<or> wh_h (ev_windowSize ev) \<noteq> wh_h (cl_size c)")
      case True
      show ?thesis using onResize_no_zoom [OF assms(1,2) True False] False by simp
    next
      case same: False
      then have "onResize ev pg = Inr pg" using assms(1) by (simp add: onResize_same_size)
      then show ?thesis using False by simp
    qed
  qed
  have general: "?z = (2 < \<bar>wh_w (ev_windowSize ev) - wh_w (cl_size c)\<bar>
            \<and> 2 < \<bar>wh_h (ev_windowSize ev) - wh_h (cl_size c)\<bar>
            \<and> \<not> diffBiggerThanOne
                  (deltaAbsRatio (wh_w (ev_windowSize ev)) (wh_w (cl_size c)))
                  (deltaAbsRatio (wh_h (ev_windowSize ev)) (wh_h (cl_size c)))
            \<and> windowDPR (ev_screen ev) \<noteq> cl_dpr c \<and> 0 < cl_dpr c)"
    by (rule isZoom_unfold)
  have ranged: "window_dimension (wh_w (cl_size c)) \<and> window_dimension (wh_h (cl_size c))
        \<and> window_dimension (wh_w (ev_windowSize ev))
        \<and> window_dimension (wh_h (ev_windowSize ev)) \<longrightarrow>
          ?z = (2 < \<bar>wh_w (ev_windowSize ev) - wh_w (cl_size c)\<bar>
              \<and> 2 < \<bar>wh_h (ev_windowSize ev) - wh_h (cl_size c)\<bar>
              \<and> abs_equal_or_one_apart
                    (deltaAbsRatio (wh_w (ev_windowSize ev)) (wh_w (cl_size c)))
                    (deltaAbsRatio (wh_h (ev_windowSize ev)) (wh_h (cl_size c)))
              \<and> windowDPR (ev_screen ev) \<noteq> cl_dpr c \<and> 0 < cl_dpr c)"
    using isZoom_iff by blast
  from run general ranged show ?thesis by blast
qed

theorem zoom_classification_witness:
  "isZoom \<lparr>wh_w = 1000, wh_h = 800\<rparr> 1 \<lparr>wh_w = 500, wh_h = 400\<rparr> 2
   \<and> map_sum id effects (onResize example_zoom example_page) \<noteq> Inr []
   \<and> deltaAbsRatio 500 1000 = Fin 50 \<and> deltaAbsRatio 400 800 = Fin 50"
proof -
  have dims: "window_dimension 1000" "window_dimension 800" "window_dimension 500"
    "window_dimension 400"
    by (simp_all add: window_dimension_def)
  from zoom_classification [of example_page _ example_zoom] example_page_ready
  obtain pg' where run: "onResize example_zoom example_page = Inr pg'"
    and eff: "(effects pg' \<noteq> effects example_page)
       = isZoom \<lparr>wh_w = 1000, wh_h = 800\<rparr> 1 \<lparr>wh_w = 500, wh_h = 400\<rparr> 2"
    and z: "isZoom \<lparr>wh_w = 1000, wh_h = 800\<rparr> 1 \<lparr>wh_w = 500, wh_h = 400\<rparr> 2
       = (2 < \<bar>500 - 1000 :: int\<bar> \<and> 2 < \<bar>400 - 800 :: int\<bar>
          \<and> abs_equal_or_one_apart (deltaAbsRatio 500 1000) (deltaAbsRatio 400 800)
          \<and> (2::rat) \<noteq> 1 \<and> (0::rat) < 1)"
    by (auto simp: example_page_simps example_event_simps dims)
  have "isZoom \<lparr>wh_w = 1000, wh_h = 800\<rparr> 1 \<lparr>wh_w = 500, wh_h = 400\<rparr> 2"
    using z by (simp add: deltaAbsRatio_examples)
  moreover from this have "map_sum id effects (onResize example_zoom example_page) \<noteq> Inr []"
    using run eff by (simp add: example_page_simps)
  ultimately show ?thesis by (simp add: deltaAbsRatio_examples)
qed

text \<open>
  Claim C2 as stated fails in both directions. Halving 1000 by 800 to 500 by 400 at a
  changed device pixel ratio gives the ratios 50 and 50: the code classifies a zoom, the
  wording (close meaning "do not differ by exactly 0 or exactly 1") does not. Going to
  500 by 416 gives 50 and 52: the wording classifies a zoom, the code does not.
\<close>

theorem zoom_classification_counterexample:
  "isZoom \<lparr>wh_w = 1000, wh_h = 800\<rparr> 1 \<lparr>wh_w = 500, wh_h = 400\<rparr> 2
   \<and> \<not> zoom_as_worded \<lparr>wh_w = 1000, wh_h = 800\<rparr> 1 \<lparr>wh_w = 500, wh_h = 400\<rparr> 2
   \<and> \<not> isZoom \<lparr>wh_w = 1000, wh_h = 800\<rparr> 1 \<lparr>wh_w = 500, wh_h = 416\<rparr> 2
   \<and> zoom_as_worded \<lparr>wh_w = 1000, wh_h = 800\<rparr> 1 \<lparr>wh_w = 500, wh_h = 416\<rparr> 2"
  using example_isZoom example_not_isZoom(1)
  by (simp add: zoom_as_worded_def deltaAbsRatio_examples)

text \<open>
  Claim C3. On a resize event classified as a zoom, the handler measures again: it
  appends the measurement element to \<^verbatim>\<open>body\<close>, reads the scrollbar size from the
  sizes the layout gives for the element in that document, stores it in the instance,
  and removes the element, which leaves the document as it was before the event. Then
  it calls the listeners, every callback of the set once, in order, each with the
  instance that already holds the new size, exactly when the new size differs from the
  old one on the x axis or the y axis. All of it happens inside the one call of the
  handler.
\<close>

theorem zoom_reprobes_and_notifies:
  assumes "resizeHandler pg = Some c" and "env_onChangedListener (self pg) \<noteq> []"
    and "isZoom (cl_size c) (cl_dpr c) (ev_windowSize ev) (windowDPR (ev_screen ev))"
    and "probe_ready (document pg) c"
  shows "\<exists>pg'. onResize ev pg = Inr pg'
     \<and> appendChildren (document pg) (Some (cl_body c)) (Single (cl_envElm c))
         = Inr (measuring_document (document pg) c)
     \<and> parentNode (measuring_document (document pg) c) (cl_envElm c) = Some (cl_body c)
     \<and> last (childNodes (measuring_document (document pg) c) (cl_body c)) = cl_envElm c
     \<and> nativeScrollbarSize (document pg) (cl_body c) (cl_envElm c) (ev_layout ev)
         = Inr (measured_size (ev_layout ev (measuring_document (document pg) c) (cl_envElm c)),
                measuring_document (document pg) c)
     \<and> self pg' = (self pg)\<lparr>env_nativeScrollbarSize :=
           measured_size (ev_layout ev (measuring_document (document pg) c) (cl_envElm c))\<rparr>
     \<and> removeElements (measuring_document (document pg) c) (Single (cl_envElm c))
         = Inr (document pg')
     \<and> parentNode (document pg') (cl_envElm c) = None
     \<and> cl_envElm c \<notin> set (childNodes (document pg') (cl_body c))
     \<and> document pg' = document pg
     \<and> effects pg' = effects pg
          @ Measured (env_nativeScrollbarSize (self pg'))
          # (if xy_x (env_nativeScrollbarSize (self pg)) \<noteq> xy_x (env_nativeScrollbarSize (self pg'))
                \<or> xy_y (env_nativeScrollbarSize (self pg)) \<noteq> xy_y (env_nativeScrollbarSize (self pg'))
             then map (\<lambda>l. Called l (self pg')) (callbacks (env_onChangedListener (self pg)))
             else [])
     \<and> set (callbacks (env_onChangedListener (self pg))) = {l. Some l \<in> set (env_onChangedListener (self pg))}"
proof -
  have ready: "wf_dom (document pg)" "cl_body c < nextId (document pg)"
      "parentNode (document pg) (cl_envElm c) = None"
    using assms(4) by (simp_all add: probe_ready_def)
  have notin: "cl_envElm c \<notin> set (childNodes (document pg) (cl_body c))"
    using ready by (intro wf_not_child) simp_all
  have cycle: "appendChildren (document pg) (Some (cl_body c)) (Single (cl_envElm c))
         = Inr (measuring_document (document pg) c)"
      "nativeScrollbarSize (document pg) (cl_body c) (cl_envElm c) (ev_layout ev)
         = Inr (probed_size (ev_layout ev) (document pg) c, measuring_document (document pg) c)"
      "removeElements (measuring_document (document pg) c) (Single (cl_envElm c))
         = Inr (document pg)"
    using probe_cycle [OF assms(4), of "ev_layout ev"] by simp_all
  have doc: "parentNode (measuring_document (document pg) c) (cl_envElm c) = Some (cl_body c)"
      "last (childNodes (measuring_document (document pg) c) (cl_body c)) = cl_envElm c"
    by (simp_all add: measuring_document_def)
  show ?thesis
    using onResize_zoom [OF assms] cycle doc ready(3) notin
    by (simp add: set_callbacks probed_size_def)
qed

theorem zoom_reprobes_and_notifies_witness:
  "map_sum id (\<lambda>pg. (env_nativeScrollbarSize (self pg), effects pg,
                     parentNode (document pg) 3, childNodes (document pg) 0))
      (onResize example_zoom example_page)
   = Inr (\<lparr>xy_x = 0, xy_y = 15\<rparr>,
          [Measured \<lparr>xy_x = 0, xy_y = 15\<rparr>,
           Called 1 ((self example_page)\<lparr>env_nativeScrollbarSize := \<lparr>xy_x = 0, xy_y = 15\<rparr>\<rparr>)],
          None, [1, 2])
   \<and> childNodes (measuring_document example_document
          \<lparr>cl_body = 0, cl_envElm = 3, cl_size = \<lparr>wh_w = 1000, wh_h = 800\<rparr>, cl_dpr = 1\<rparr>) 0
       = [1, 2, 3]
   \<and> measured_size (ev_layout example_zoom example_document 3) = \<lparr>xy_x = 0, xy_y = 0\<rparr>"
proof -
  let ?c = "\<lparr>cl_body = 0, cl_envElm = 3, cl_size = \<lparr>wh_w = 1000, wh_h = 800\<rparr>, cl_dpr = 1\<rparr>"
  have size: "measured_size (ev_layout example_zoom (measuring_document example_document ?c) 3)
      = \<lparr>xy_x = 0, xy_y = 15\<rparr>"
    using example_event_simps(3) by (simp add: probed_size_def)
  from zoom_reprobes_and_notifies [of example_page ?c example_zoom]
    example_page_ready example_isZoom
  obtain pg' where "onResize example_zoom example_page = Inr pg'"
    "self pg' = (self example_page)\<lparr>env_nativeScrollbarSize := \<lparr>xy_x = 0, xy_y = 15\<rparr>\<rparr>"
    "effects pg' = [Measured \<lparr>xy_x = 0, xy_y = 15\<rparr>, Called 1 (self pg')]"
    "document pg' = example_document"
    by (auto simp: example_page_simps example_event_simps size)
  moreover have "childNodes (measuring_document example_document ?c) 0 = [1, 2, 3]"
    "parentNode example_document 3 = None" "childNodes example_document 0 = [1, 2]"
    "measured_size (ev_layout example_zoom example_document 3) = \<lparr>xy_x = 0, xy_y = 0\<rparr>"
    by (simp_all add: measuring_document_def example_document_def example_zoom_def boxes_def
        measured_size_def)
  ultimately show ?thesis by simp
qed

subsection \<open>The constructor\<close>

lemma createDOM_environment_fields:
  "fst (createDOM_environment d) = (Suc (nextId d), Suc (Suc (nextId d)))"
  "nextId (snd (createDOM_environment d)) = Suc (Suc (Suc (nextId d)))"
  "parentNode (snd (createDOM_environment d))
     = (parentNode d)(nextId d := None, Suc (nextId d) := None,
                      Suc (Suc (nextId d)) := Some (Suc (nextId d)))"
  "childNodes (snd (createDOM_environment d))
     = (childNodes d)(nextId d := [], Suc (nextId d) := [Suc (Suc (nextId d))],
                      Suc (Suc (nextId d)) := [])"
  "kind (snd (createDOM_environment d))
     = (kind d)(nextId d := Element, Suc (nextId d) := Element,
                Suc (Suc (nextId d)) := Element)"
  by (simp_all add: createDOM_environment_def Let_def)

lemma createDOM_environment_wf:
  assumes wf: "wf_dom d"
  shows "wf_dom (snd (createDOM_environment d))"
  unfolding wf_dom_iff
proof (intro allI impI conjI ballI)
  let ?d0 = "snd (createDOM_environment d)"
  let ?W = "nextId d"
  fix n assume "n < nextId ?d0"
  then have n: "n < ?W \<or> n = ?W \<or> n = Suc ?W \<or> n = Suc (Suc ?W)"
    by (auto simp: createDOM_environment_fields)
  show "distinct (childNodes ?d0 n)"
    using n wf_distinct [OF wf] by (auto simp: createDOM_environment_fields)
  { fix c assume c: "c \<in> set (childNodes ?d0 n)"
    show "c < nextId ?d0"
    proof (cases "n < ?W")
      case True
      then have "c \<in> set (childNodes d n)" using c by (simp add: createDOM_environment_fields)
      then have "c < ?W" using wf_child [OF wf True] by blast
      then show ?thesis by (simp add: createDOM_environment_fields)
    next
      case False
      then show ?thesis using n c by (auto simp: createDOM_environment_fields split: if_splits)
    qed
    show "parentNode ?d0 c = Some n"
    proof (cases "n < ?W")
      case True
      then have "c \<in> set (childNodes d n)" using c by (simp add: createDOM_environment_fields)
      then have "c < ?W \<and> parentNode d c = Some n" using wf_child [OF wf True] by blast
      then show ?thesis by (simp add: createDOM_environment_fields)
    next
      case False
      then show ?thesis using n c by (auto simp: createDOM_environment_fields split: if_splits)
    qed }
  { fix q assume q: "parentNode ?d0 n = Some q"
    have "q < nextId ?d0 \<and> n \<in> set (childNodes ?d0 q)"
    proof (cases "n < ?W")
      case True
      then have "parentNode d n = Some q" using q by (simp add: createDOM_environment_fields)
      then have "q < ?W \<and> n \<in> set (childNodes d q)" using wf_parent [OF wf True] by blast
      then show ?thesis by (simp add: createDOM_environment_fields)
    next
      case False
      then show ?thesis using n q by (auto simp: createDOM_environment_fields split: if_splits)
    qed
    then show "q < nextId ?d0" "n \<in> set (childNodes ?d0 q)" by simp_all }
qed

lemma fresh_not_ancestor:
  assumes bound: "\<forall>m<N. \<forall>q. parentNode d m = Some q \<longrightarrow> q < N" and a: "N \<le> a"
  shows "n < N \<Longrightarrow> \<not> ancestor_walk k d a n"
proof (induction k arbitrary: n)
  case 0
  then show ?case using a by simp
next
  case (Suc k)
  have "\<And>q. parentNode d n = Some q \<Longrightarrow> \<not> ancestor_walk k d a q"
    using bound Suc by blast
  then show ?case using Suc.prems a by (auto split: option.splits)
qed

lemma createDOM_environment_ready:
  assumes wf: "wf_dom d" and body: "body < nextId d"
  shows "probe_ready (snd (createDOM_environment d))
           \<lparr>cl_body = body, cl_envElm = Suc (nextId d), cl_size = s, cl_dpr = r\<rparr>"
proof -
  let ?d0 = "snd (createDOM_environment d)"
  have bound: "\<forall>m<nextId d. \<forall>q. parentNode ?d0 m = Some q \<longrightarrow> q < nextId d"
    using wf_parent [OF wf] by (auto simp: createDOM_environment_fields)
  have "\<not> ancestor_walk k ?d0 (Suc (nextId d)) body" for k
    using fresh_not_ancestor [OF bound _ body, of "Suc (nextId d)" k] by simp
  then have "\<not> inclusive_ancestor ?d0 (Suc (nextId d)) body"
    by (simp add: inclusive_ancestor_def)
  then show ?thesis
    using createDOM_environment_wf [OF wf] body
    by (simp add: probe_ready_def createDOM_environment_fields)
qed

lemma Environment_constructor_result:
  assumes wf: "wf_dom d" and body: "body < nextId d"
    and c0: "c0 = \<lparr>cl_body = body, cl_envElm = Suc (nextId d),
                  cl_size = pf_windowSize pf, cl_dpr = windowDPR (pf_screen pf)\<rparr>"
    and ms: "ms = probed_size (pf_layout pf) (snd (createDOM_environment d)) c0"
  shows "Environment_constructor pf body d =
     Inr \<lparr>self =
            \<lparr>env_onChangedListener = [],
             env_autoUpdateLoop = False,
             env_nativeScrollbarSize = ms,
             env_nativeScrollbarIsOverlaid = \<lparr>xy_x = (xy_x ms = 0), xy_y = (xy_y ms = 0)\<rparr>,
             env_nativeScrollbarStyling = nativeScrollbarStyling (pf_styling pf),
             env_rtlScrollBehavior = rtlScrollBehavior (pf_rtl pf),
             env_supportPassiveEvents = pf_passiveOptionRead pf,
             env_supportResizeObserver = pf_ResizeObserver pf\<rparr>,
          resizeHandler = (if xy_x ms \<noteq> 0 \<or> xy_y ms \<noteq> 0 then Some c0 else None),
          document = snd (createDOM_environment d),
          effects = [Measured ms]\<rparr>"
proof -
  define d0 where "d0 = snd (createDOM_environment d)"
  have cd: "createDOM_environment d = ((Suc (nextId d), Suc (Suc (nextId d))), d0)"
    by (simp add: d0_def createDOM_environment_def Let_def)
  have ready: "probe_ready d0 c0"
    unfolding d0_def c0 using wf body by (rule createDOM_environment_ready)
  define d1 where "d1 = measuring_document d0 c0"
  have m: "nativeScrollbarSize d0 body (Suc (nextId d)) (pf_layout pf) = Inr (ms, d1)"
    and r: "removeElements d1 (Single (Suc (nextId d))) = Inr d0"
    using probe_cycle [OF ready, of "pf_layout pf"] by (simp_all add: c0 ms d0_def d1_def)
  show ?thesis
    unfolding Environment_constructor_def d0_def [symmetric]
    by (simp only: cd Let_def prod.case m r sum.case) (simp add: c0)
qed

lemma step_unregistered:
  assumes "resizeHandler pg = None"
  shows "\<exists>pg'. step a pg = Inr pg' \<and> resizeHandler pg' = None
           \<and> env_nativeScrollbarSize (self pg') = env_nativeScrollbarSize (self pg)
           \<and> env_nativeScrollbarIsOverlaid (self pg') = env_nativeScrollbarIsOverlaid (self pg)
           \<and> effects pg' = effects pg \<and> document pg' = document pg"
  using assms
  by (cases a) (simp_all add: onResize_not_registered addListener_def removeListener_def)

lemma run_unregistered:
  assumes "resizeHandler pg = None"
  shows "\<exists>pg'. run as pg = Inr pg' \<and> resizeHandler pg' = None
           \<and> env_nativeScrollbarSize (self pg') = env_nativeScrollbarSize (self pg)
           \<and> env_nativeScrollbarIsOverlaid (self pg') = env_nativeScrollbarIsOverlaid (self pg)
           \<and> effects pg' = effects pg \<and> document pg' = document pg"
  using assms
proof (induction as arbitrary: pg)
  case Nil
  then show ?case by simp
next
  case (Cons a as)
  from step_unregistered [OF Cons.prems, of a] obtain pg1 where
    s: "step a pg = Inr pg1" "resizeHandler pg1 = None"
      "env_nativeScrollbarSize (self pg1) = env_nativeScrollbarSize (self pg)"
      "env_nativeScrollbarIsOverlaid (self pg1) = env_nativeScrollbarIsOverlaid (self pg)"
      "effects pg1 = effects pg" "document pg1 = document pg"
    by blast
  from Cons.IH [OF s(2)] show ?case using s by simp
qed

text \<open>
  Claim C4. The constructor returns on every well-formed document with a \<^verbatim>\<open>body\<close>.
  If the scrollbars it measured are overlaid on both axes, no resize handler is
  registered, and after any sequence of resize events (and of listener registrations
  and removals) the scrollbar size and the overlaid flags are those measured at
  construction, nothing has been measured again, no listener has been called and the
  document is as the constructor left it.
\<close>

theorem overlaid_scrollbars_never_reprobed:
  assumes "wf_dom d" and "body < nextId d"
  shows "\<exists>pg0. Environment_constructor pf body d = Inr pg0
     \<and> (xy_x (env_nativeScrollbarIsOverlaid (self pg0))
          \<and> xy_y (env_nativeScrollbarIsOverlaid (self pg0))
        \<longrightarrow> resizeHandler pg0 = None
          \<and> (\<forall>as. \<exists>pg. run as pg0 = Inr pg
                 \<and> resizeHandler pg = None
                 \<and> env_nativeScrollbarSize (self pg) = env_nativeScrollbarSize (self pg0)
                 \<and> env_nativeScrollbarIsOverlaid (self pg)
                     = env_nativeScrollbarIsOverlaid (self pg0)
                 \<and> effects pg = effects pg0
                 \<and> document pg = document pg0))"
proof -
  define c0 where "c0 = \<lparr>cl_body = body, cl_envElm = Suc (nextId d),
                  cl_size = pf_windowSize pf, cl_dpr = windowDPR (pf_screen pf)\<rparr>"
  define ms where "ms = probed_size (pf_layout pf) (snd (createDOM_environment d)) c0"
  obtain pg0 where c: "Environment_constructor pf body d = Inr pg0"
    and h: "resizeHandler pg0 = (if xy_x ms \<noteq> 0 \<or> xy_y ms \<noteq> 0 then Some c0 else None)"
    and o: "env_nativeScrollbarIsOverlaid (self pg0)
              = \<lparr>xy_x = (xy_x ms = 0), xy_y = (xy_y ms = 0)\<rparr>"
    using Environment_constructor_result [OF assms c0_def ms_def] by simp
  have "resizeHandler pg0 = None"
    if "xy_x (env_nativeScrollbarIsOverlaid (self pg0))"
      and "xy_y (env_nativeScrollbarIsOverlaid (self pg0))"
    using that by (simp add: h o)
  then show ?thesis using c run_unregistered [of pg0] by blast
qed

theorem overlaid_scrollbars_never_reprobed_witness:
  "map_sum id (\<lambda>pg. (resizeHandler pg, env_nativeScrollbarSize (self pg),
                     env_nativeScrollbarIsOverlaid (self pg), effects pg))
     (construct_and_run overlay_platform 0 example_document
        [AddListener (Some 1), Resize example_zoom])
   = Inr (None, \<lparr>xy_x = 0, xy_y = 0\<rparr>, \<lparr>xy_x = True, xy_y = True\<rparr>,
          [Measured \<lparr>xy_x = 0, xy_y = 0\<rparr>])"
proof -
  have ms: "probed_size (pf_layout overlay_platform) (snd (createDOM_environment example_document))
              \<lparr>cl_body = 0, cl_envElm = Suc (nextId example_document),
               cl_size = pf_windowSize overlay_platform,
               cl_dpr = windowDPR (pf_screen overlay_platform)\<rparr> = \<lparr>xy_x = 0, xy_y = 0\<rparr>"
    by (simp add: overlay_platform_def measured_size_def probed_size_def measuring_document_def
        boxes_def)
  have wf: "wf_dom example_document" "0 < nextId example_document"
    using example_document_wf by (simp_all add: example_document_def)
  from overlaid_scrollbars_never_reprobed [OF wf, of overlay_platform]
  obtain pg0 where c: "Environment_constructor overlay_platform 0 example_document = Inr pg0"
    and imp: "xy_x (env_nativeScrollbarIsOverlaid (self pg0))
          \<and> xy_y (env_nativeScrollbarIsOverlaid (self pg0))
        \<longrightarrow> resizeHandler pg0 = None
          \<and> (\<forall>as. \<exists>pg. run as pg0 = Inr pg
                 \<and> resizeHandler pg = None
                 \<and> env_nativeScrollbarSize (self pg) = env_nativeScrollbarSize (self pg0)
                 \<and> env_nativeScrollbarIsOverlaid (self pg)
                     = env_nativeScrollbarIsOverlaid (self pg0)
                 \<and> effects pg = effects pg0
                 \<and> document pg = document pg0)"
    by blast
  have pg0: "env_nativeScrollbarSize (self pg0) = \<lparr>xy_x = 0, xy_y = 0\<rparr>"
    "env_nativeScrollbarIsOverlaid (self pg0) = \<lparr>xy_x = True, xy_y = True\<rparr>"
    "effects pg0 = [Measured \<lparr>xy_x = 0, xy_y = 0\<rparr>]"
    using c Environment_constructor_result [OF wf refl refl, of overlay_platform]
    by (auto simp: ms)
  from imp pg0 obtain pg where
    "run [AddListener (Some 1), Resize example_zoom] pg0 = Inr pg"
    "resizeHandler pg = None"
    "env_nativeScrollbarSize (self pg) = \<lparr>xy_x = 0, xy_y = 0\<rparr>"
    "env_nativeScrollbarIsOverlaid (self pg) = \<lparr>xy_x = True, xy_y = True\<rparr>"
    "effects pg = [Measured \<lparr>xy_x = 0, xy_y = 0\<rparr>]"
    by (metis XY.select_convs(1) XY.select_convs(2))
  then show ?thesis using c by (simp add: construct_and_run_def del: run.simps)
qed

lemma constructed_overlaid_iff:
  assumes "wf_dom d" and "body < nextId d" and "Environment_constructor pf body d = Inr pg0"
  shows "xy_x (env_nativeScrollbarIsOverlaid (self pg0))
           = (xy_x (env_nativeScrollbarSize (self pg0)) = 0)
       \<and> xy_y (env_nativeScrollbarIsOverlaid (self pg0))
           = (xy_y (env_nativeScrollbarSize (self pg0)) = 0)"
  using assms(3) Environment_constructor_result [OF assms(1,2) refl refl, of pf] by auto

text \<open>
  Claim C1. The constructor derives each overlaid flag from the measured size (the
  lemma above), so the two agree at construction. The zoom branch of the handler
  stores a new size and leaves the flags as they are: on the example platform (classic
  scrollbars, 17 pixels), after a listener is added and a zoom event measures a
  horizontal scrollbar of 0, the instance holds the size 0 on the x axis together with
  the flag "not overlaid" on that axis.
\<close>

theorem stale_overlaid_flag_after_reprobe:
  "map_sum id (\<lambda>pg. (env_nativeScrollbarSize (self pg), env_nativeScrollbarIsOverlaid (self pg)))
     (construct_and_run example_platform 0 example_document
        [AddListener (Some 1), Resize example_zoom])
   = Inr (\<lparr>xy_x = 0, xy_y = 15\<rparr>, \<lparr>xy_x = False, xy_y = False\<rparr>)"
  by code_simp

subsection \<open>Reachable pages\<close>

text \<open>
  The handler leaves the document as it found it, so the state in which it can measure,
  which the constructor sets up, holds after every run: from a well-formed document
  with a \<^verbatim>\<open>body\<close>, construction followed by any actions returns without a DOM
  exception.
\<close>

lemma probe_ready_closure:
  "probe_ready d (c\<lparr>cl_size := s, cl_dpr := r\<rparr>) = probe_ready d c"
  by (simp add: probe_ready_def)

lemma onResize_ready:
  assumes "\<forall>c. resizeHandler pg = Some c \<longrightarrow> probe_ready (document pg) c"
  shows "\<exists>pg'. onResize ev pg = Inr pg' \<and> document pg' = document pg
           \<and> (\<forall>c. resizeHandler pg' = Some c \<longrightarrow> probe_ready (document pg') c)"
proof (cases "resizeHandler pg")
  case None
  then show ?thesis using assms by (simp add: onResize_not_registered)
next
  case (Some c)
  then have ready: "probe_ready (document pg) c" using assms by simp
  show ?thesis
  proof (cases "env_onChangedListener (self pg) = []")
    case True
    then show ?thesis using assms by (simp add: onResize_no_listener)
  next
    case ls: False
    show ?thesis
    proof (cases "isZoom (cl_size c) (cl_dpr c) (ev_windowSize ev) (windowDPR (ev_screen ev))")
      case True
      show ?thesis
        using onResize_zoom [OF Some ls True ready] ready by (simp add: probe_ready_closure)
    next
      case False
      show ?thesis
      proof (cases "wh_w (ev_windowSize ev) \<noteq> wh_w (cl_size c)
                  \<or> wh_h (ev_windowSize ev) \<noteq> wh_h (cl_size c)")
        case True
        show ?thesis
          using onResize_no_zoom [OF Some ls True False] ready by (simp add: probe_ready_closure)
      next
        case same: False
        then have "onResize ev pg = Inr pg" using Some by (simp add: onResize_same_size)
        then show ?thesis using assms by simp
      qed
    qed
  qed
qed

lemma run_ready:
  assumes "\<forall>c. resizeHandler pg = Some c \<longrightarrow> probe_ready (document pg) c"
  shows "\<exists>pg'. run as pg = Inr pg' \<and> document pg' = document pg
           \<and> (\<forall>c. resizeHandler pg' = Some c \<longrightarrow> probe_ready (document pg') c)"
  using assms
proof (induction as arbitrary: pg)
  case Nil
  then show ?case by simp
next
  case (Cons a as)
  have "\<exists>pg1. step a pg = Inr pg1 \<and> document pg1 = document pg
           \<and> (\<forall>c. resizeHandler pg1 = Some c \<longrightarrow> probe_ready (document pg1) c)"
  proof (cases a)
    case (Resize ev)
    then show ?thesis using onResize_ready [OF Cons.prems, of ev] by simp
  next
    case (AddListener l)
    then show ?thesis using Cons.prems by simp
  next
    case (RemoveListener l)
    then show ?thesis using Cons.prems by simp
  qed
  then obtain pg1 where s: "step a pg = Inr pg1" "document pg1 = document pg"
      "\<forall>c. resizeHandler pg1 = Some c \<longrightarrow> probe_ready (document pg1) c"
    by blast
  from Cons.IH [OF s(3)] show ?case using s(1,2) by auto
qed

lemma construct_and_run_returns:
  assumes "wf_dom d" and "body < nextId d"
  shows "\<exists>pg. construct_and_run pf body d as = Inr pg
           \<and> (\<forall>c. resizeHandler pg = Some c \<longrightarrow> probe_ready (document pg) c)"
proof -
  obtain pg0 where c: "Environment_constructor pf body d = Inr pg0"
    and h: "\<forall>c. resizeHandler pg0 = Some c \<longrightarrow> probe_ready (document pg0) c"
    using Environment_constructor_result [OF assms refl refl, of pf]
      createDOM_environment_ready [OF assms]
    by (auto split: if_splits)
  from run_ready [OF h, of as] obtain pg where "run as pg0 = Inr pg"
    "\<forall>c. resizeHandler pg = Some c \<longrightarrow> probe_ready (document pg) c"
    by auto
  then show ?thesis using c by (simp add: construct_and_run_def del: run.simps)
qed


end
